theory Spec2Isabelle
  imports Complex_Main "HOL-Library.Word" "HOL-Library.Multiset"
begin

section \<open>Conventions of the embedding\<close>

text \<open>
  The two headers are embedded shallowly. Every C++ object is a record, every member
  function a HOL function from the state before the call to the state after it. A call
  that does not return normally yields \<open>Inl e\<close>:
  \<^item> \<open>AssertionFailed\<close>: an \<^verbatim>\<open>assert\<close> of the source does not hold
    (assertions are compiled in);
  \<^item> \<open>OutOfBounds\<close>: \<^verbatim>\<open>operator[]\<close> of a vector or deque, or a pointer, is used outside
    the object it indexes (undefined behaviour in C++); the one such use that is let
    pass is the addition of 0 in front of a buffer in the bucket loop of \<open>read_info\<close>,
    described there;
  \<^item> \<open>SignedOverflow\<close>: an \<^verbatim>\<open>int\<close> expression leaves the 32-bit range (undefined
    behaviour);
  \<^item> \<open>LengthError\<close>: \<^verbatim>\<open>resize\<close> with a negative count;
  \<^item> \<open>OpenFailed\<close>: a file that is opened for reading does not exist;
  \<^item> \<open>KeyNotFound\<close>: \<^verbatim>\<open>id_map_.at\<close> throws;
  \<^item> \<open>NullAdapter\<close>: an accessor of an adapter that holds no vertex is used.

  The file system is ideal: opening a file for writing and writing to it always succeed.
  The 64-bit record counters are unbounded integers: a counter is incremented once per
  call, so no execution reaches \<open>2^63\<close>.
\<close>

datatype error =
  AssertionFailed | OutOfBounds | SignedOverflow | LengthError | OpenFailed
  | KeyNotFound | NullAdapter

definition bind_err :: "error + 'a \<Rightarrow> ('a \<Rightarrow> error + 'b) \<Rightarrow> error + 'b" where
  "bind_err m f = (case m of Inl e \<Rightarrow> Inl e | Inr x \<Rightarrow> f x)"

text \<open>\<^verbatim>\<open>v[i]\<close> for a signed index \<open>i\<close>.\<close>

definition at_idx :: "'a list \<Rightarrow> int \<Rightarrow> error + 'a" where
  "at_idx xs i = (if 0 \<le> i \<and> i < int (length xs) then Inr (xs ! nat i) else Inl OutOfBounds)"

text \<open>\<^verbatim>\<open>v.resize(n, d)\<close> for \<open>n \<ge> 0\<close>: the vector is cut or padded with \<open>d\<close>.\<close>

definition resize :: "nat \<Rightarrow> 'a \<Rightarrow> 'a list \<Rightarrow> 'a list" where
  "resize n d xs = take n xs @ replicate (n - length xs) d"

section \<open>The edge store\<close>

subsection \<open>PartitionRecord\<close>

record PartitionRecord =
  thread_id :: int
  starting_offset :: int
  total_number :: int

definition PartitionRecord_new :: PartitionRecord where
  "PartitionRecord_new = \<lparr>thread_id = - 1, starting_offset = 0, total_number = 0\<rparr>"

subsection \<open>Files\<close>

text \<open>
  A file name is what \<^verbatim>\<open>FormatString("%s.edges.%d", prefix, i)\<close> or
  \<^verbatim>\<open>FormatString("%s.edges.info", prefix)\<close> denotes. A binary file is the sequence of
  32-bit words written to it. The metadata file is the sequence of tokens that
  \<^verbatim>\<open>fprintf\<close> writes and \<^verbatim>\<open>fscanf\<close> reads back: a literal word of the format string or a
  number.
\<close>

datatype fname = EdgesFile string int | EdgesInfo string

datatype tok = Lit string | Num int

datatype fdata = Binary "32 word list" | Text "tok list"

type_synonym filesys = "fname \<Rightarrow> fdata option"

text \<open>
  \<^verbatim>\<open>fwrite(edge_ptr, sizeof(uint32_t), n, f)\<close>: the \<open>n\<close> words at \<open>edge_ptr\<close> are appended.
  The buffer at \<open>edge_ptr\<close> is the list \<open>buf\<close>; reading past it is out of bounds, and so
  is a negative \<open>n\<close> (converted to a huge \<^verbatim>\<open>size_t\<close>).
\<close>

definition fwrite :: "32 word list \<Rightarrow> int \<Rightarrow> fname \<Rightarrow> filesys \<Rightarrow> error + filesys" where
  "fwrite buf n f fs =
     (if n < 0 \<or> int (length buf) < n then Inl OutOfBounds
      else case fs f of
        Some (Binary ws) \<Rightarrow> Inr (fs(f \<mapsto> Binary (ws @ take (nat n) buf)))
      | _ \<Rightarrow> Inl OpenFailed)"

subsection \<open>EdgeWriter\<close>

record EdgeWriter =
  w_kmer_size :: int
  w_words_per_edge :: int
  w_num_threads :: int
  w_num_buckets :: int
  w_unsorted :: bool
  w_num_unsorted_edges :: "int list"
  w_file_prefix :: string
  w_files :: "fname list"
  w_cur_bucket :: "int list"
  w_cur_num_edges :: "int list"
  w_p_rec :: "PartitionRecord list"
  w_is_opened :: bool

text \<open>
  The constructor sets \<open>unsorted_\<close> and \<open>is_opened_\<close> only; the four integers are
  indeterminate until their setters run, so they are parameters here.
\<close>

definition EdgeWriter_new :: "int \<Rightarrow> int \<Rightarrow> int \<Rightarrow> int \<Rightarrow> EdgeWriter" where
  "EdgeWriter_new k0 w0 n0 b0 =
     \<lparr>w_kmer_size = k0, w_words_per_edge = w0, w_num_threads = n0, w_num_buckets = b0,
      w_unsorted = False, w_num_unsorted_edges = [], w_file_prefix = [], w_files = [],
      w_cur_bucket = [], w_cur_num_edges = [], w_p_rec = [], w_is_opened = False\<rparr>"

definition int32_ok :: "int \<Rightarrow> bool" where
  "int32_ok x = (- (2 ^ 31) \<le> x \<and> x < 2 ^ 31)"

text \<open>
  Modelled from the spec: \<^verbatim>\<open>DivCeiling\<close> is declared in \<^verbatim>\<open>utils.h\<close>, which is not part of
  the sources at hand. The specification reads the call in \<open>set_kmer_size\<close> as
  \<open>ceil(((k+1)*2+16)/32)\<close>, so \<open>DivCeiling a b\<close> is the quotient rounded up.
\<close>

definition DivCeiling :: "int \<Rightarrow> int \<Rightarrow> int" where
  "DivCeiling a b = - ((- a) div b)"

definition set_kmer_size :: "int \<Rightarrow> EdgeWriter \<Rightarrow> error + EdgeWriter" where
  "set_kmer_size k w =
     (if int32_ok k \<and> int32_ok (k + 1) \<and> int32_ok ((k + 1) * 2) \<and> int32_ok ((k + 1) * 2 + 16)
      then Inr (w\<lparr>w_kmer_size := k, w_words_per_edge := DivCeiling ((k + 1) * 2 + 16) 32\<rparr>)
      else Inl SignedOverflow)"

definition set_num_threads :: "int \<Rightarrow> EdgeWriter \<Rightarrow> EdgeWriter" where
  "set_num_threads num_threads w = w\<lparr>w_num_threads := num_threads\<rparr>"

definition set_file_prefix :: "string \<Rightarrow> EdgeWriter \<Rightarrow> EdgeWriter" where
  "set_file_prefix prefix w = w\<lparr>w_file_prefix := prefix\<rparr>"

definition set_num_buckets :: "int \<Rightarrow> EdgeWriter \<Rightarrow> EdgeWriter" where
  "set_num_buckets num_buckets w = w\<lparr>w_num_buckets := num_buckets\<rparr>"

definition set_unsorted :: "EdgeWriter \<Rightarrow> error + EdgeWriter" where
  "set_unsorted w =
     (if w_num_threads w < 0 then Inl LengthError
      else Inr (w\<lparr>w_num_buckets := 0, w_p_rec := [], w_unsorted := True,
                  w_num_unsorted_edges := resize (nat (w_num_threads w)) 0 []\<rparr>))"

text \<open>The loop of \<open>init_files\<close> that opens (creates or truncates) one file per thread.\<close>

definition open_edge_files :: "string \<Rightarrow> nat \<Rightarrow> filesys \<Rightarrow> filesys" where
  "open_edge_files prefix n fs =
     fold (\<lambda>i fs'. fs'(EdgesFile prefix (int i) \<mapsto> Binary [])) [0..<n] fs"

definition EdgeWriter_init_files :: "EdgeWriter \<times> filesys \<Rightarrow> error + EdgeWriter \<times> filesys" where
  "EdgeWriter_init_files = (\<lambda>(w, fs).
     if w_is_opened w then Inl AssertionFailed
     else if w_num_threads w < 0 \<or> w_num_buckets w < 0 then Inl LengthError
     else
       let n = nat (w_num_threads w) in
       Inr (w\<lparr>w_files := map (\<lambda>i. EdgesFile (w_file_prefix w) (int i)) [0..<n],
               w_cur_bucket := resize n (- 1) (w_cur_bucket w),
               w_cur_num_edges := resize n 0 (w_cur_num_edges w),
               w_p_rec := resize (nat (w_num_buckets w)) PartitionRecord_new (w_p_rec w),
               w_is_opened := True\<rparr>,
            open_edge_files (w_file_prefix w) n fs))"

definition EdgeWriter_write ::
  "32 word list \<Rightarrow> int \<Rightarrow> int \<Rightarrow> EdgeWriter \<times> filesys \<Rightarrow> error + EdgeWriter \<times> filesys" where
  "EdgeWriter_write edge_ptr bucket tid = (\<lambda>(w, fs).
     bind_err (at_idx (w_cur_bucket w) tid) (\<lambda>cb.
     bind_err
       (if bucket \<noteq> cb then
          bind_err (at_idx (w_p_rec w) bucket) (\<lambda>pr.
          if thread_id pr \<noteq> - 1 then Inl AssertionFailed
          else
            bind_err (at_idx (w_cur_num_edges w) tid) (\<lambda>n.
            Inr (w\<lparr>w_p_rec := (w_p_rec w)
                       [nat bucket := pr\<lparr>thread_id := tid, starting_offset := n\<rparr>],
                    w_cur_bucket := (w_cur_bucket w)[nat tid := bucket]\<rparr>)))
        else Inr w) (\<lambda>w1.
     bind_err (at_idx (w_files w1) tid) (\<lambda>f.
     bind_err (fwrite edge_ptr (w_words_per_edge w1) f fs) (\<lambda>fs1.
     bind_err (at_idx (w_cur_num_edges w1) tid) (\<lambda>n.
     bind_err (at_idx (w_p_rec w1) bucket) (\<lambda>pr.
     Inr (w1\<lparr>w_cur_num_edges := (w_cur_num_edges w1)[nat tid := n + 1],
              w_p_rec := (w_p_rec w1)
                [nat bucket := pr\<lparr>total_number := total_number pr + 1\<rparr>]\<rparr>,
          fs1))))))))"

definition EdgeWriter_write_unsorted ::
  "32 word list \<Rightarrow> int \<Rightarrow> EdgeWriter \<times> filesys \<Rightarrow> error + EdgeWriter \<times> filesys" where
  "EdgeWriter_write_unsorted edge_ptr tid = (\<lambda>(w, fs).
     bind_err (at_idx (w_files w) tid) (\<lambda>f.
     bind_err (fwrite edge_ptr (w_words_per_edge w) f fs) (\<lambda>fs1.
     bind_err (at_idx (w_num_unsorted_edges w) tid) (\<lambda>n.
     Inr (w\<lparr>w_num_unsorted_edges := (w_num_unsorted_edges w)[nat tid := n + 1]\<rparr>, fs1)))))"


text \<open>
  The metadata file: five header lines, one line per bucket, one line per entry of
  \<open>num_unsorted_edges_\<close>.
\<close>

definition info_tokens :: "EdgeWriter \<Rightarrow> int \<Rightarrow> tok list" where
  "info_tokens w num_edges =
     [Lit ''kmer_size'', Num (w_kmer_size w),
      Lit ''words_per_edge'', Num (w_words_per_edge w),
      Lit ''num_threads'', Num (w_num_threads w),
      Lit ''num_bucket'', Num (w_num_buckets w),
      Lit ''num_edges'', Num num_edges]
     @ concat (map (\<lambda>(i, pr). [Num (int i), Num (thread_id pr), Num (starting_offset pr),
                                 Num (total_number pr)])
                (enumerate 0 (w_p_rec w)))
     @ concat (map (\<lambda>(i, c). [Num (int i), Num c]) (enumerate 0 (w_num_unsorted_edges w)))"

definition EdgeWriter_destroy :: "EdgeWriter \<times> filesys \<Rightarrow> error + EdgeWriter \<times> filesys" where
  "EdgeWriter_destroy = (\<lambda>(w, fs).
     if w_is_opened w then
       if int (length (w_files w)) < w_num_threads w then Inl OutOfBounds
       else
         let num_edges =
               (if \<not> w_unsorted w then sum_list (map total_number (w_p_rec w))
                else sum_list (w_num_unsorted_edges w))
         in Inr (w\<lparr>w_files := [], w_cur_bucket := [], w_cur_num_edges := [], w_p_rec := [],
                    w_is_opened := False\<rparr>,
                 fs(EdgesInfo (w_file_prefix w) \<mapsto> Text (info_tokens w num_edges)))
     else Inr (w, fs))"

subsection \<open>EdgeReader\<close>

text \<open>
  A mapped file is the list of words the mapping covers. A pointer into a mapping is the
  index of the mapping in \<open>mmaps_\<close> and an offset in words.
\<close>

type_synonym edge_ptr = "int \<times> int"

record EdgeReader =
  r_kmer_size :: int
  r_words_per_edge :: int
  r_num_files :: int
  r_num_buckets :: int
  r_num_edges :: int
  r_file_prefix :: string
  r_fds :: "fname list"
  r_mmaps :: "32 word list list"
  r_p_rec :: "PartitionRecord list"
  r_file_sizes :: "int list"
  r_cur_bucket :: int
  r_cur_file_num :: int
  r_cur_cnt :: int
  r_cur_vol :: int
  r_cur_ptr :: edge_ptr
  r_is_opened :: bool

text \<open>
  The constructor sets \<open>is_opened_\<close>; the vectors and the prefix start empty; every other
  member is indeterminate and keeps the value it has in \<open>r0\<close>.
\<close>

definition EdgeReader_new :: "EdgeReader \<Rightarrow> EdgeReader" where
  "EdgeReader_new r0 =
     r0\<lparr>r_file_prefix := [], r_fds := [], r_mmaps := [], r_p_rec := [], r_file_sizes := [],
        r_is_opened := False\<rparr>"

definition reader_set_file_prefix :: "string \<Rightarrow> EdgeReader \<Rightarrow> EdgeReader" where
  "reader_set_file_prefix prefix r = r\<lparr>r_file_prefix := prefix\<rparr>"

text \<open>
  The bucket loop of \<open>read_info\<close>, \<open>n\<close> iterations from index \<open>i\<close>: each reads four numbers
  and adds the bucket's total to \<open>file_sizes_[thread_id]\<close>. The subscript is not checked.
  Inside the vector the element is updated. With the thread id \<open>-1\<close> of a bucket without
  owner the statement reads the word in front of the vector's buffer and writes it back
  increased by the total: with the total 0 no byte changes and the loop goes on. Any
  other subscript outside the vector, a nonzero total added in front of the buffer, and a
  vector that has no buffer are reported as \<open>OutOfBounds\<close>.
\<close>

fun read_bucket_rows ::
  "nat \<Rightarrow> nat \<Rightarrow> tok list \<Rightarrow> PartitionRecord list \<Rightarrow> int list
     \<Rightarrow> error + tok list \<times> PartitionRecord list \<times> int list" where
  "read_bucket_rows 0 i toks p fsz = Inr (toks, p, fsz)"
| "read_bucket_rows (Suc n) i toks p fsz =
     (case toks of
        Num dummy # Num t # Num off # Num tot # rest \<Rightarrow>
          bind_err (if 0 \<le> t \<and> t < int (length fsz) then Inr (fsz[nat t := fsz ! nat t + tot])
                    else if t = - 1 \<and> tot = 0 \<and> fsz \<noteq> [] then Inr fsz
                    else Inl OutOfBounds) (\<lambda>fsz1.
          read_bucket_rows n (Suc i) rest
            (p[i := \<lparr>thread_id = t, starting_offset = off, total_number = tot\<rparr>]) fsz1)
      | _ \<Rightarrow> Inl AssertionFailed)"

text \<open>The loop over the files that runs when \<open>num_buckets_ == 0\<close>.\<close>

fun read_file_rows :: "nat \<Rightarrow> nat \<Rightarrow> tok list \<Rightarrow> int list \<Rightarrow> error + tok list \<times> int list" where
  "read_file_rows 0 i toks fsz = Inr (toks, fsz)"
| "read_file_rows (Suc n) i toks fsz =
     (case toks of
        Num dummy # Num c # rest \<Rightarrow> read_file_rows n (Suc i) rest (fsz[i := c])
      | _ \<Rightarrow> Inl AssertionFailed)"

definition read_info :: "EdgeReader \<Rightarrow> filesys \<Rightarrow> error + EdgeReader" where
  "read_info r fs =
     (case fs (EdgesInfo (r_file_prefix r)) of
        Some (Text (Lit l1 # Num k # Lit l2 # Num w # Lit l3 # Num nf # Lit l4 # Num nb
                    # Lit l5 # Num ne # toks)) \<Rightarrow>
          if l1 = ''kmer_size'' \<and> l2 = ''words_per_edge'' \<and> l3 = ''num_threads''
             \<and> l4 = ''num_bucket'' \<and> l5 = ''num_edges'' then
            if nb < 0 \<or> nf < 0 then Inl LengthError
            else
              bind_err (read_bucket_rows (nat nb) 0 toks
                          (resize (nat nb) PartitionRecord_new (r_p_rec r))
                          (resize (nat nf) 0 (r_file_sizes r))) (\<lambda>(toks1, p, fsz).
              bind_err (if nb = 0 then read_file_rows (nat nf) 0 toks1 fsz
                        else Inr (toks1, fsz)) (\<lambda>(toks2, fsz1).
              Inr (r\<lparr>r_kmer_size := k, r_words_per_edge := w, r_num_files := nf,
                      r_num_buckets := nb, r_num_edges := ne, r_p_rec := p,
                      r_file_sizes := fsz1\<rparr>)))
          else Inl AssertionFailed
      | Some (Text _) \<Rightarrow> Inl AssertionFailed
      | _ \<Rightarrow> Inl OpenFailed)"

definition is_unsorted :: "EdgeReader \<Rightarrow> bool" where
  "is_unsorted r = (r_num_buckets r = 0)"

text \<open>
  The loop of the reader's \<open>init_files\<close>: file \<open>i\<close> is opened and its first
  \<open>file_sizes_[i] * words_per_edge_\<close> words are mapped.
\<close>

fun map_edge_files ::
  "string \<Rightarrow> int \<Rightarrow> int list \<Rightarrow> filesys \<Rightarrow> nat \<Rightarrow> nat \<Rightarrow> error + 32 word list list" where
  "map_edge_files prefix wpe fsz fs 0 i = Inr []"
| "map_edge_files prefix wpe fsz fs (Suc n) i =
     (case fs (EdgesFile prefix (int i)) of
        Some (Binary ws) \<Rightarrow>
          bind_err (at_idx fsz (int i)) (\<lambda>sz.
          bind_err (map_edge_files prefix wpe fsz fs n (Suc i)) (\<lambda>ms.
          Inr (take (nat (sz * wpe)) ws # ms)))
      | _ \<Rightarrow> Inl AssertionFailed)"

definition EdgeReader_init_files :: "EdgeReader \<Rightarrow> filesys \<Rightarrow> error + EdgeReader" where
  "EdgeReader_init_files r fs =
     (if r_is_opened r then Inl AssertionFailed
      else if r_num_files r < 0 then Inl LengthError
      else
        bind_err (map_edge_files (r_file_prefix r) (r_words_per_edge r) (r_file_sizes r) fs
                    (nat (r_num_files r)) 0) (\<lambda>ms.
        Inr (r\<lparr>r_fds := map (\<lambda>i. EdgesFile (r_file_prefix r) (int i)) [0..<nat (r_num_files r)],
                r_mmaps := ms, r_cur_cnt := 0, r_cur_vol := 0, r_cur_bucket := - 1,
                r_cur_file_num := (if is_unsorted r then - 1 else r_cur_file_num r),
                r_is_opened := True\<rparr>)))"

text \<open>The record a returned pointer designates: \<open>words_per_edge_\<close> words of its mapping.\<close>

definition edge_at :: "EdgeReader \<Rightarrow> edge_ptr \<Rightarrow> error + 32 word list" where
  "edge_at r p =
     bind_err (at_idx (r_mmaps r) (fst p)) (\<lambda>m.
     if 0 \<le> snd p \<and> 0 \<le> r_words_per_edge r \<and> snd p + r_words_per_edge r \<le> int (length m)
     then Inr (take (nat (r_words_per_edge r)) (drop (nat (snd p)) m))
     else Inl OutOfBounds)"

text \<open>The inner loop of \<open>NextSortedEdge\<close>: skip the buckets that have no owner.\<close>

function skip_unassigned :: "PartitionRecord list \<Rightarrow> int \<Rightarrow> int \<Rightarrow> error + int" where
  "skip_unassigned p nb cb =
     (if cb < nb then
        (if 0 \<le> cb \<and> cb < int (length p) then
           (if thread_id (p ! nat cb) < 0 then skip_unassigned p nb (cb + 1) else Inr cb)
         else Inl OutOfBounds)
      else Inr cb)"
  by pat_completeness auto
termination
  by (relation "measure (\<lambda>(p, nb, cb). nat (nb - cb))") auto

declare skip_unassigned.simps [simp del]

lemma skip_unassigned_bounds:
  "skip_unassigned p nb cb = Inr cb' \<Longrightarrow> cb \<le> cb'"
proof (induction p nb cb rule: skip_unassigned.induct)
  case (1 p nb cb)
  show ?case
  proof (cases "cb < nb \<and> 0 \<le> cb \<and> cb < int (length p) \<and> thread_id (p ! nat cb) < 0")
    case True
    then have "skip_unassigned p nb (cb + 1) = Inr cb'"
      using "1.prems" by (simp add: skip_unassigned.simps [of p nb cb])
    with "1.IH" True show ?thesis by simp
  next
    case False
    then show ?thesis
      using "1.prems" by (auto simp: skip_unassigned.simps [of p nb cb] split: if_splits)
  qed
qed

text \<open>
  The outer loop of \<open>NextSortedEdge\<close>. The result is \<open>True\<close> when the loop leaves the
  function with \<^verbatim>\<open>return NULL\<close>, and \<open>False\<close> when the loop condition fails.
\<close>

function sorted_advance :: "EdgeReader \<Rightarrow> error + bool \<times> EdgeReader" where
  "sorted_advance r =
     (if r_cur_cnt r \<ge> r_cur_vol r then
        (case skip_unassigned (r_p_rec r) (r_num_buckets r) (r_cur_bucket r + 1) of
           Inl e \<Rightarrow> Inl e
         | Inr cb \<Rightarrow>
             if cb \<ge> r_num_buckets r then Inr (True, r\<lparr>r_cur_bucket := cb\<rparr>)
             else
               (case at_idx (r_p_rec r) cb of
                  Inl e \<Rightarrow> Inl e
                | Inr pr \<Rightarrow>
                    (case at_idx (r_mmaps r) (thread_id pr) of
                       Inl e \<Rightarrow> Inl e
                     | Inr m \<Rightarrow>
                         sorted_advance
                           (r\<lparr>r_cur_bucket := cb, r_cur_cnt := 0,
                              r_cur_vol := total_number pr,
                              r_cur_ptr := (thread_id pr,
                                 r_words_per_edge r * starting_offset pr)\<rparr>))))
      else Inr (False, r))"
  by pat_completeness auto
termination
  apply (relation "measure (\<lambda>r. nat (r_num_buckets r - r_cur_bucket r))")
   apply simp
  apply (auto dest: skip_unassigned_bounds)
  done


declare sorted_advance.simps [simp del]

definition NextSortedEdge :: "EdgeReader \<Rightarrow> error + edge_ptr option \<times> EdgeReader" where
  "NextSortedEdge r =
     (if r_cur_bucket r \<ge> r_num_buckets r then Inr (None, r)
      else
        bind_err (sorted_advance r) (\<lambda>(exhausted, r1).
        if exhausted then Inr (None, r1)
        else Inr (Some (r_cur_ptr r1),
                  r1\<lparr>r_cur_cnt := r_cur_cnt r1 + 1,
                     r_cur_ptr := (fst (r_cur_ptr r1),
                                   snd (r_cur_ptr r1) + r_words_per_edge r1)\<rparr>)))"

text \<open>The loop of \<open>NextUnsortedEdge\<close>, with the same convention for its result.\<close>

function unsorted_advance :: "EdgeReader \<Rightarrow> error + bool \<times> EdgeReader" where
  "unsorted_advance r =
     (if r_cur_cnt r \<ge> r_cur_vol r then
        (let fnum = r_cur_file_num r + 1 in
         if fnum \<ge> r_num_files r then Inr (True, r\<lparr>r_cur_file_num := fnum\<rparr>)
         else
           (case at_idx (r_mmaps r) fnum of
              Inl e \<Rightarrow> Inl e
            | Inr m \<Rightarrow>
                (case at_idx (r_file_sizes r) fnum of
                   Inl e \<Rightarrow> Inl e
                 | Inr sz \<Rightarrow>
                     unsorted_advance
                       (r\<lparr>r_cur_file_num := fnum, r_cur_ptr := (fnum, 0), r_cur_cnt := 0,
                          r_cur_vol := sz\<rparr>))))
      else Inr (False, r))"
  by pat_completeness auto
termination
  by (relation "measure (\<lambda>r. nat (r_num_files r - r_cur_file_num r))") (auto simp: Let_def)

declare unsorted_advance.simps [simp del]

definition NextUnsortedEdge :: "EdgeReader \<Rightarrow> error + edge_ptr option \<times> EdgeReader" where
  "NextUnsortedEdge r =
     (if r_cur_file_num r \<ge> r_num_files r then Inr (None, r)
      else
        bind_err (unsorted_advance r) (\<lambda>(exhausted, r1).
        if exhausted then Inr (None, r1)
        else Inr (Some (r_cur_ptr r1),
                  r1\<lparr>r_cur_cnt := r_cur_cnt r1 + 1,
                     r_cur_ptr := (fst (r_cur_ptr r1),
                                   snd (r_cur_ptr r1) + r_words_per_edge r1)\<rparr>)))"

definition EdgeReader_destroy :: "EdgeReader \<Rightarrow> error + EdgeReader" where
  "EdgeReader_destroy r =
     (if r_is_opened r then
        if int (length (r_mmaps r)) < r_num_files r \<or> int (length (r_file_sizes r)) < r_num_files r
           \<or> int (length (r_fds r)) < r_num_files r
        then Inl OutOfBounds
        else Inr (r\<lparr>r_file_sizes := [], r_fds := [], r_mmaps := [], r_is_opened := False\<rparr>)
      else Inr r)"

text \<open>
  A consumer that calls a pull function \<open>n\<close> times and reads the record behind every
  pointer it gets: the results in order, \<open>None\<close> for the null pointer, and the reader
  after the last call.
\<close>

fun pull_edges ::
  "(EdgeReader \<Rightarrow> error + edge_ptr option \<times> EdgeReader) \<Rightarrow> nat \<Rightarrow> EdgeReader
     \<Rightarrow> error + 32 word list option list \<times> EdgeReader" where
  "pull_edges nxt 0 r = Inr ([], r)"
| "pull_edges nxt (Suc n) r =
     bind_err (nxt r) (\<lambda>(p, r1).
     bind_err (case p of None \<Rightarrow> Inr None
               | Some q \<Rightarrow> bind_err (edge_at r1 q) (\<lambda>e. Inr (Some e))) (\<lambda>e.
     bind_err (pull_edges nxt n r1) (\<lambda>(es, r2).
     Inr (e # es, r2))))"


subsection \<open>Histories of calls\<close>

text \<open>
  A history is the list of the calls of \<open>write\<close> in the order in which they take effect,
  each with its record, its bucket and its thread. The writer runs them one after the
  other and stops at the first call that fails. \<open>thread_ops\<close> and \<open>bucket_ops\<close> select
  the calls of one thread and of one bucket; \<open>records_of\<close> gives the records the calls
  append, \<open>words_per_edge_\<close> words each.
\<close>

type_synonym write_op = "32 word list \<times> int \<times> int"

fun run_writes :: "write_op list \<Rightarrow> EdgeWriter \<times> filesys \<Rightarrow> error + EdgeWriter \<times> filesys" where
  "run_writes [] s = Inr s"
| "run_writes ((e, b, t) # ops) s = bind_err (EdgeWriter_write e b t s) (run_writes ops)"

definition thread_ops :: "int \<Rightarrow> write_op list \<Rightarrow> write_op list" where
  "thread_ops t ops = filter (\<lambda>(e, b, t'). t' = t) ops"

definition bucket_ops :: "int \<Rightarrow> write_op list \<Rightarrow> write_op list" where
  "bucket_ops b ops = filter (\<lambda>(e, b', t). b' = b) ops"

definition records_of :: "int \<Rightarrow> write_op list \<Rightarrow> 32 word list list" where
  "records_of wpe ops = map (\<lambda>(e, b, t). take (nat wpe) e) ops"

text \<open>
  The invariant of an opened writer after the history \<open>ops\<close>. For a thread: its file
  holds its records in order, its counter is their number, and its current bucket, if
  any, is owned by it and ends where its file ends. For a bucket: it is unclaimed and
  empty, or its calls are exactly the \<open>total_number\<close> calls of its owner from position
  \<open>starting_offset\<close> on.
\<close>

definition thread_inv :: "EdgeWriter \<Rightarrow> filesys \<Rightarrow> write_op list \<Rightarrow> nat \<Rightarrow> bool" where
  "thread_inv w fs ops t =
     (let tops = thread_ops (int t) ops; cb = w_cur_bucket w ! t in
      fs (EdgesFile (w_file_prefix w) (int t)) =
        Some (Binary (concat (records_of (w_words_per_edge w) tops)))
      \<and> w_cur_num_edges w ! t = int (length tops)
      \<and> (cb = - 1 \<or>
          (0 \<le> cb \<and> cb < int (length (w_p_rec w)) \<and> thread_id (w_p_rec w ! nat cb) = int t
           \<and> starting_offset (w_p_rec w ! nat cb) + total_number (w_p_rec w ! nat cb)
               = int (length tops))))"

definition bucket_inv :: "EdgeWriter \<Rightarrow> write_op list \<Rightarrow> nat \<Rightarrow> bool" where
  "bucket_inv w ops b =
     (let pr = w_p_rec w ! b; bops = bucket_ops (int b) ops in
      (thread_id pr = - 1 \<and> starting_offset pr = 0 \<and> total_number pr = 0 \<and> bops = [])
      \<or> (0 \<le> thread_id pr \<and> thread_id pr < int (length (w_cur_bucket w))
          \<and> 0 \<le> starting_offset pr \<and> 0 < total_number pr
          \<and> starting_offset pr + total_number pr \<le> int (length (thread_ops (thread_id pr) ops))
          \<and> bops = take (nat (total_number pr))
                     (drop (nat (starting_offset pr)) (thread_ops (thread_id pr) ops))))"

definition writer_inv :: "write_op list \<Rightarrow> EdgeWriter \<times> filesys \<Rightarrow> bool" where
  "writer_inv ops s =
     (case s of (w, fs) \<Rightarrow>
        w_files w = map (\<lambda>i. EdgesFile (w_file_prefix w) (int i)) [0..<length (w_cur_bucket w)]
        \<and> length (w_cur_num_edges w) = length (w_cur_bucket w)
        \<and> (\<forall>t < length (w_cur_bucket w). thread_inv w fs ops t)
        \<and> (\<forall>b < length (w_p_rec w). bucket_inv w ops b))"

text \<open>A writer as the constructor or \<open>destroy()\<close> leaves it.\<close>

definition closed_writer :: "EdgeWriter \<Rightarrow> bool" where
  "closed_writer w =
     (\<not> w_is_opened w \<and> w_files w = [] \<and> w_cur_bucket w = [] \<and> w_cur_num_edges w = []
      \<and> w_p_rec w = [])"

text \<open>
  A history of calls of \<open>write_unsorted\<close>: the record and the thread of each call.
  \<open>thread_edges\<close> gives the records one thread appends, in order.
\<close>

type_synonym unsorted_op = "32 word list \<times> int"

fun run_unsorted ::
  "unsorted_op list \<Rightarrow> EdgeWriter \<times> filesys \<Rightarrow> error + EdgeWriter \<times> filesys" where
  "run_unsorted [] s = Inr s"
| "run_unsorted ((e, t) # ops) s = bind_err (EdgeWriter_write_unsorted e t s) (run_unsorted ops)"

definition thread_edges :: "int \<Rightarrow> int \<Rightarrow> unsorted_op list \<Rightarrow> 32 word list list" where
  "thread_edges wpe t ops = map (\<lambda>(e, t'). take (nat wpe) e) (filter (\<lambda>(e, t'). t' = t) ops)"

text \<open>
  The invariant of a writer in unsorted mode: the file of a thread holds its records and
  \<open>num_unsorted_edges_\<close> counts them.
\<close>

definition unsorted_writer_inv :: "unsorted_op list \<Rightarrow> EdgeWriter \<times> filesys \<Rightarrow> bool" where
  "unsorted_writer_inv ops s =
     (case s of (w, fs) \<Rightarrow>
        w_files w = map (\<lambda>i. EdgesFile (w_file_prefix w) (int i))
                      [0..<length (w_num_unsorted_edges w)]
        \<and> (\<forall>t < length (w_num_unsorted_edges w).
              fs (EdgesFile (w_file_prefix w) (int t)) =
                Some (Binary (concat (thread_edges (w_words_per_edge w) (int t) ops)))
              \<and> w_num_unsorted_edges w ! t
                  = int (length (thread_edges (w_words_per_edge w) (int t) ops))))"

text \<open>
  The invariant of a reader in unsorted mode over files that hold the records \<open>recs\<close>
  (one list of records per file), the records of the current file, and the records the
  reader has still to return.
\<close>

definition cur_run :: "32 word list list list \<Rightarrow> EdgeReader \<Rightarrow> 32 word list list" where
  "cur_run recs r = (if 0 \<le> r_cur_file_num r then recs ! nat (r_cur_file_num r) else [])"

definition unsorted_reader_inv :: "32 word list list list \<Rightarrow> EdgeReader \<Rightarrow> bool" where
  "unsorted_reader_inv recs r =
     (r_num_files r = int (length recs) \<and> length (r_mmaps r) = length recs
      \<and> length (r_file_sizes r) = length recs
      \<and> (\<forall>i < length recs.
            r_mmaps r ! i = concat (recs ! i) \<and> r_file_sizes r ! i = int (length (recs ! i))
            \<and> (\<forall>e \<in> set (recs ! i). length e = nat (r_words_per_edge r)
                   \<and> 0 \<le> r_words_per_edge r))
      \<and> (r_cur_file_num r < r_num_files r \<longrightarrow>
            - 1 \<le> r_cur_file_num r \<and> 0 \<le> r_cur_cnt r \<and> r_cur_cnt r \<le> r_cur_vol r
            \<and> r_cur_vol r = int (length (cur_run recs r))
            \<and> (0 \<le> r_cur_file_num r \<longrightarrow>
                  r_cur_ptr r = (r_cur_file_num r, r_cur_cnt r * r_words_per_edge r))))"

definition unsorted_pending :: "32 word list list list \<Rightarrow> EdgeReader \<Rightarrow> 32 word list list" where
  "unsorted_pending recs r =
     (if r_num_files r \<le> r_cur_file_num r then []
      else drop (nat (r_cur_cnt r)) (cur_run recs r)
           @ concat (drop (nat (r_cur_file_num r + 1)) recs))"

text \<open>The records of the files \<open>0\<close> to \<open>n - 1\<close> of a store written in unsorted mode.\<close>

definition stored_edges :: "int \<Rightarrow> nat \<Rightarrow> unsorted_op list \<Rightarrow> 32 word list list list" where
  "stored_edges wpe n ops = map (\<lambda>t. thread_edges wpe (int t) ops) [0..<n]"

text \<open>
  What the bucket loop of \<open>read_info\<close> adds to \<open>file_sizes_[t]\<close>: the totals of the buckets
  whose thread id is \<open>t\<close>.
\<close>

definition owned_total :: "PartitionRecord list \<Rightarrow> int \<Rightarrow> int" where
  "owned_total prs t = sum_list (map (\<lambda>pr. if thread_id pr = t then total_number pr else 0) prs)"

text \<open>
  The records of the files of a store written in sorted mode, and the records a reader
  is to return: those of bucket 0 in the order of their calls, then those of bucket 1,
  and so on.
\<close>

definition thread_records :: "int \<Rightarrow> nat \<Rightarrow> write_op list \<Rightarrow> 32 word list list list" where
  "thread_records wpe n ops = map (\<lambda>t. records_of wpe (thread_ops (int t) ops)) [0..<n]"

definition bucket_records :: "int \<Rightarrow> nat \<Rightarrow> write_op list \<Rightarrow> 32 word list list" where
  "bucket_records wpe n ops = concat (map (\<lambda>b. records_of wpe (bucket_ops (int b) ops)) [0..<n])"

text \<open>
  The invariant of a reader in sorted mode over files that hold the records \<open>recs\<close>. The
  run of a bucket is the window of its owner's file that its line of the metadata
  designates; a bucket without owner has no run.
\<close>

definition sorted_run :: "32 word list list list \<Rightarrow> PartitionRecord \<Rightarrow> 32 word list list" where
  "sorted_run recs pr =
     (if thread_id pr < 0 then []
      else take (nat (total_number pr)) (drop (nat (starting_offset pr)) (recs ! nat (thread_id pr))))"

definition sorted_reader_inv :: "32 word list list list \<Rightarrow> EdgeReader \<Rightarrow> bool" where
  "sorted_reader_inv recs r =
     (r_num_buckets r = int (length (r_p_rec r)) \<and> length (r_mmaps r) = length recs
      \<and> (\<forall>i < length recs.
            r_mmaps r ! i = concat (recs ! i)
            \<and> (\<forall>e \<in> set (recs ! i). length e = nat (r_words_per_edge r)
                   \<and> 0 \<le> r_words_per_edge r))
      \<and> (\<forall>pr \<in> set (r_p_rec r). 0 \<le> thread_id pr \<longrightarrow>
            thread_id pr < int (length recs) \<and> 0 \<le> starting_offset pr \<and> 0 \<le> total_number pr
            \<and> starting_offset pr + total_number pr \<le> int (length (recs ! nat (thread_id pr))))
      \<and> (r_cur_bucket r < r_num_buckets r \<longrightarrow>
            - 1 \<le> r_cur_bucket r \<and> 0 \<le> r_cur_cnt r \<and> r_cur_cnt r \<le> r_cur_vol r
            \<and> (r_cur_bucket r = - 1 \<longrightarrow> r_cur_vol r = 0)
            \<and> (0 \<le> r_cur_bucket r \<longrightarrow>
                  0 \<le> thread_id (r_p_rec r ! nat (r_cur_bucket r))
                  \<and> r_cur_vol r = total_number (r_p_rec r ! nat (r_cur_bucket r))
                  \<and> r_cur_ptr r = (thread_id (r_p_rec r ! nat (r_cur_bucket r)),
                       r_words_per_edge r * starting_offset (r_p_rec r ! nat (r_cur_bucket r))
                       + r_cur_cnt r * r_words_per_edge r))))"

definition sorted_pending :: "32 word list list list \<Rightarrow> EdgeReader \<Rightarrow> 32 word list list" where
  "sorted_pending recs r =
     (if r_num_buckets r \<le> r_cur_bucket r then []
      else drop (nat (r_cur_cnt r))
             (if 0 \<le> r_cur_bucket r then sorted_run recs (r_p_rec r ! nat (r_cur_bucket r)) else [])
           @ concat (map (sorted_run recs) (drop (nat (r_cur_bucket r + 1)) (r_p_rec r))))"

section \<open>The unitig graph\<close>

subsection \<open>The succinct de Bruijn graph, vertices and adapters\<close>

text \<open>
  Modelled from the spec: \<^verbatim>\<open>SuccinctDBG\<close> (\<^verbatim>\<open>sdbg/sdbg.h\<close>) is an external collaborator that
  the graph consumes through its queries only. \<open>OutgoingEdges\<close> gives the raw ids that
  the call writes to \<open>next_starts\<close>, their number being the returned degree;
  \<open>NextSimplePathEdge\<close> gives the unique successor edge or \<open>kNullID\<close>.
\<close>

record SuccinctDBG =
  OutgoingEdges :: "64 word \<Rightarrow> 64 word list"
  NextSimplePathEdge :: "64 word \<Rightarrow> 64 word"
  kNullID :: "64 word"

text \<open>
  Modelled from the spec: \<^verbatim>\<open>UnitigGraphVertex\<close> and its adapters are declared in
  \<^verbatim>\<open>unitig_graph_vertex.h\<close>, which is not part of the sources at hand. A vertex has begin and
  end raw ids and a cached out-degree that may be unknown (\<open>None\<close> stands for
  \<open>kUnknownDegree\<close>), read in one of two orientations; nothing relates the ids of the two
  orientations. An adapter is a vertex reference (the index of the vertex in
  \<open>vertices_\<close>, or none for the empty adapter), a strand flag and a compact id.
  \<open>ReverseComplement\<close> flips the strand bit in place. The path length of a vertex plays no
  part in the operations below and is left out.
\<close>

record StrandInfo =
  si_begin :: "64 word"
  si_end :: "64 word"
  si_cached_out_degree :: "int option"

record UnitigGraphVertex =
  info_fwd :: StrandInfo
  info_rev :: StrandInfo

record Adapter =
  a_vertex :: "nat option"
  a_strand :: int
  a_id :: nat

definition strand_info :: "UnitigGraphVertex \<Rightarrow> int \<Rightarrow> error + StrandInfo" where
  "strand_info v s =
     (if s = 0 then Inr (info_fwd v) else if s = 1 then Inr (info_rev v) else Inl OutOfBounds)"

definition set_cached_outdegree ::
  "UnitigGraphVertex \<Rightarrow> int \<Rightarrow> int \<Rightarrow> error + UnitigGraphVertex" where
  "set_cached_outdegree v s d =
     (if s = 0 then Inr (v\<lparr>info_fwd := (info_fwd v)\<lparr>si_cached_out_degree := Some d\<rparr>\<rparr>)
      else if s = 1 then Inr (v\<lparr>info_rev := (info_rev v)\<lparr>si_cached_out_degree := Some d\<rparr>\<rparr>)
      else Inl OutOfBounds)"

definition ReverseComplement :: "Adapter \<Rightarrow> Adapter" where
  "ReverseComplement a = a\<lparr>a_strand := xor (a_strand a) 1\<rparr>"

definition empty_adapter :: Adapter where
  "empty_adapter = \<lparr>a_vertex = None, a_strand = 0, a_id = 0\<rparr>"

subsection \<open>UnitigGraph and AdapterImpl\<close>

text \<open>
  The members of \<open>UnitigGraph\<close> that the adapter operations use, and the two counters
  (static members of the class). The read-only and the privileged adapter share the one
  implementation \<open>AdapterImpl\<close>, so one set of functions stands for both.
\<close>

record UnitigGraph =
  sdbg :: SuccinctDBG
  vertices :: "UnitigGraphVertex list"
  id_map :: "64 word \<Rightarrow> nat option"
  count_cache_used :: "64 word"
  count_cache_missed :: "64 word"

text \<open>The accessors of an adapter read the vertex it refers to.\<close>

definition adapter_info :: "UnitigGraph \<Rightarrow> Adapter \<Rightarrow> error + StrandInfo" where
  "adapter_info g a =
     (case a_vertex a of
        None \<Rightarrow> Inl NullAdapter
      | Some i \<Rightarrow> bind_err (at_idx (vertices g) (int i)) (\<lambda>v. strand_info v (a_strand a)))"

definition adapter_begin :: "UnitigGraph \<Rightarrow> Adapter \<Rightarrow> error + 64 word" where
  "adapter_begin g a = bind_err (adapter_info g a) (\<lambda>si. Inr (si_begin si))"

definition adapter_end :: "UnitigGraph \<Rightarrow> Adapter \<Rightarrow> error + 64 word" where
  "adapter_end g a = bind_err (adapter_info g a) (\<lambda>si. Inr (si_end si))"

definition cached_out_degree :: "UnitigGraph \<Rightarrow> Adapter \<Rightarrow> error + int option" where
  "cached_out_degree g a = bind_err (adapter_info g a) (\<lambda>si. Inr (si_cached_out_degree si))"

definition MakeVertexAdapter :: "UnitigGraph \<Rightarrow> nat \<Rightarrow> int \<Rightarrow> error + Adapter" where
  "MakeVertexAdapter g i strand =
     bind_err (at_idx (vertices g) (int i)) (\<lambda>v.
     Inr \<lparr>a_vertex = Some i, a_strand = strand, a_id = i\<rparr>)"

definition MakeVertexAdapterWithSdbgId :: "UnitigGraph \<Rightarrow> 64 word \<Rightarrow> error + Adapter" where
  "MakeVertexAdapterWithSdbgId g sdbg_id =
     (case id_map g sdbg_id of
        None \<Rightarrow> Inl KeyNotFound
      | Some i \<Rightarrow>
          bind_err (MakeVertexAdapter g i 0) (\<lambda>adapter.
          bind_err (adapter_begin g adapter) (\<lambda>b.
          Inr (if b \<noteq> sdbg_id then ReverseComplement adapter else adapter))))"

text \<open>The loop that fills \<open>out\<close>: it stops at the first id that \<open>id_map_.at\<close> does not know.\<close>

fun make_adapters :: "UnitigGraph \<Rightarrow> 64 word list \<Rightarrow> error + Adapter list" where
  "make_adapters g [] = Inr []"
| "make_adapters g (x # xs) =
     bind_err (MakeVertexAdapterWithSdbgId g x) (\<lambda>a.
     bind_err (make_adapters g xs) (\<lambda>as. Inr (a # as)))"

text \<open>
  \<open>MakeSudoAdapter(id, strand).set_cached_outdegree(degree)\<close>: the write goes to
  \<open>vertices_[id]\<close>.
\<close>

definition write_cache :: "UnitigGraph \<Rightarrow> nat \<Rightarrow> int \<Rightarrow> int \<Rightarrow> error + UnitigGraph" where
  "write_cache g i strand degree =
     bind_err (at_idx (vertices g) (int i)) (\<lambda>v.
     bind_err (set_cached_outdegree v strand degree) (\<lambda>v'.
     Inr (g\<lparr>vertices := (vertices g)[i := v']\<rparr>)))"

text \<open>
  \<open>GetNextAdapters(adapter, out)\<close>: \<open>out\<close> tells whether the buffer is given; the result is
  the degree, the adapters written to the buffer, the adapter and the graph. More than
  four outgoing edges would overrun \<open>next_starts\<close>.
\<close>

definition GetNextAdapters ::
  "UnitigGraph \<Rightarrow> Adapter \<Rightarrow> bool \<Rightarrow> error + int \<times> Adapter list option \<times> Adapter \<times> UnitigGraph" where
  "GetNextAdapters g adapter out =
     bind_err (adapter_end g adapter) (\<lambda>e.
     let next_starts = OutgoingEdges (sdbg g) e; degree = int (length next_starts) in
     if 4 < degree then Inl OutOfBounds
     else
       bind_err (if out then bind_err (make_adapters g next_starts) (\<lambda>as. Inr (Some as))
                 else Inr None) (\<lambda>outs.
       bind_err (cached_out_degree g adapter) (\<lambda>c.
       bind_err (if c = None then write_cache g (a_id adapter) (a_strand adapter) degree
                 else Inr g) (\<lambda>g'.
       Inr (degree, outs, adapter, g')))))"

definition GetPrevAdapters ::
  "UnitigGraph \<Rightarrow> Adapter \<Rightarrow> bool \<Rightarrow> error + int \<times> Adapter list option \<times> Adapter \<times> UnitigGraph" where
  "GetPrevAdapters g adapter out =
     bind_err (GetNextAdapters g (ReverseComplement adapter) out) (\<lambda>(degree, outs, adapter1, g').
     Inr (degree, map_option (map ReverseComplement) outs, ReverseComplement adapter1, g'))"

definition OutDegree :: "UnitigGraph \<Rightarrow> Adapter \<Rightarrow> error + int \<times> Adapter \<times> UnitigGraph" where
  "OutDegree g adapter =
     bind_err (cached_out_degree g adapter) (\<lambda>c.
     case c of
       Some d \<Rightarrow> Inr (d, adapter, g\<lparr>count_cache_used := count_cache_used g + 1\<rparr>)
     | None \<Rightarrow>
         bind_err (GetNextAdapters (g\<lparr>count_cache_missed := count_cache_missed g + 1\<rparr>)
                     adapter False) (\<lambda>(degree, outs, adapter1, g').
         Inr (degree, adapter1, g')))"

definition InDegree :: "UnitigGraph \<Rightarrow> Adapter \<Rightarrow> error + int \<times> Adapter \<times> UnitigGraph" where
  "InDegree g adapter =
     bind_err (OutDegree g (ReverseComplement adapter)) (\<lambda>(degree, adapter1, g').
     Inr (degree, ReverseComplement adapter1, g'))"

definition NextSimplePathAdapter ::
  "UnitigGraph \<Rightarrow> Adapter \<Rightarrow> error + Adapter \<times> Adapter \<times> UnitigGraph" where
  "NextSimplePathAdapter g adapter =
     bind_err (adapter_end g adapter) (\<lambda>e.
     let next_sdbg_id = NextSimplePathEdge (sdbg g) e in
     if next_sdbg_id \<noteq> kNullID (sdbg g) then
       bind_err (MakeVertexAdapterWithSdbgId g next_sdbg_id) (\<lambda>ret. Inr (ret, adapter, g))
     else Inr (empty_adapter, adapter, g))"

definition PrevSimplePathAdapter ::
  "UnitigGraph \<Rightarrow> Adapter \<Rightarrow> error + Adapter \<times> Adapter \<times> UnitigGraph" where
  "PrevSimplePathAdapter g adapter =
     bind_err (NextSimplePathAdapter g (ReverseComplement adapter)) (\<lambda>(ret, adapter1, g').
     Inr (ReverseComplement ret, ReverseComplement adapter1, g'))"

text \<open>
  The raw ids for which the strand choice of \<open>MakeVertexAdapterWithSdbgId\<close> can succeed:
  the map sends the id to a vertex of the graph, and that vertex begins with it in one
  of the two orientations. The constructor and \<open>Refresh()\<close> (\<^verbatim>\<open>unitig_graph.cpp\<close>), which
  fill \<open>id_map_\<close>, are not part of the sources at hand, so nothing is assumed about the
  keys of the map: a theorem that needs this property of an id states it.
\<close>

definition begin_id :: "UnitigGraph \<Rightarrow> 64 word \<Rightarrow> bool" where
  "begin_id g x =
     (case id_map g x of
        None \<Rightarrow> False
      | Some i \<Rightarrow> i < length (vertices g)
          \<and> (si_begin (info_fwd (vertices g ! i)) = x \<or> si_begin (info_rev (vertices g ! i)) = x))"

text \<open>The operations of \<open>AdapterImpl\<close> that take an adapter, and the graph each leaves.\<close>

datatype adapter_op =
  OpGetNext bool | OpGetPrev bool | OpOutDegree | OpInDegree | OpNextSimplePath
  | OpPrevSimplePath

definition graph_after :: "adapter_op \<Rightarrow> UnitigGraph \<Rightarrow> Adapter \<Rightarrow> error + UnitigGraph" where
  "graph_after op g a =
     (case op of
        OpGetNext out \<Rightarrow> bind_err (GetNextAdapters g a out) (\<lambda>(d, outs, a', g'). Inr g')
      | OpGetPrev out \<Rightarrow> bind_err (GetPrevAdapters g a out) (\<lambda>(d, outs, a', g'). Inr g')
      | OpOutDegree \<Rightarrow> bind_err (OutDegree g a) (\<lambda>(d, a', g'). Inr g')
      | OpInDegree \<Rightarrow> bind_err (InDegree g a) (\<lambda>(d, a', g'). Inr g')
      | OpNextSimplePath \<Rightarrow> bind_err (NextSimplePathAdapter g a) (\<lambda>(r, a', g'). Inr g')
      | OpPrevSimplePath \<Rightarrow> bind_err (PrevSimplePathAdapter g a) (\<lambda>(r, a', g'). Inr g'))"

section \<open>Example states\<close>

definition ex_open_writer :: EdgeWriter where
  "ex_open_writer =
     (EdgeWriter_new 21 2 1 1)\<lparr>w_files := [EdgesFile ''p'' 0], w_cur_bucket := [0],
        w_cur_num_edges := [1],
        w_p_rec := [\<lparr>thread_id = 0, starting_offset = 0, total_number = 1\<rparr>],
        w_is_opened := True\<rparr>"

definition ex_open_reader :: EdgeReader where
  "ex_open_reader =
     \<lparr>r_kmer_size = 21, r_words_per_edge = 2, r_num_files = 1, r_num_buckets = 1,
      r_num_edges = 1, r_file_prefix = ''p'', r_fds = [EdgesFile ''p'' 0],
      r_mmaps = [[1, 2]],
      r_p_rec = [\<lparr>thread_id = 0, starting_offset = 0, total_number = 1\<rparr>],
      r_file_sizes = [1], r_cur_bucket = - 1, r_cur_file_num = 0, r_cur_cnt = 0,
      r_cur_vol = 0, r_cur_ptr = (0, 0), r_is_opened = True\<rparr>"

definition ex_sorted_writer :: EdgeWriter where
  "ex_sorted_writer =
     set_num_buckets 3 (set_num_threads 2 (set_file_prefix ''p'' (EdgeWriter_new 21 2 0 0)))"

definition ex_sorted_ops :: "write_op list" where
  "ex_sorted_ops = [([1, 2], 0, 0), ([3, 4], 0, 0), ([5, 6], 2, 1), ([7, 8], 1, 0)]"

definition ex_sorted_opened :: "EdgeWriter \<times> filesys" where
  "ex_sorted_opened =
     (ex_sorted_writer\<lparr>w_files := [EdgesFile ''p'' 0, EdgesFile ''p'' 1],
            w_cur_bucket := [- 1, - 1], w_cur_num_edges := [0, 0],
            w_p_rec := [PartitionRecord_new, PartitionRecord_new, PartitionRecord_new],
            w_is_opened := True\<rparr>,
          open_edge_files ''p'' 2 Map.empty)"

definition ex_unsorted_writer :: EdgeWriter where
  "ex_unsorted_writer = set_num_threads 2 (set_file_prefix ''p'' (EdgeWriter_new 21 2 0 0))"

text \<open>
  A graph of three vertices with the raw ids 10 to 13, 20 to 23 and 30 to 33 (begin and
  end forwards, begin and end reversed); the edges lead from 11 to 20 and from 21 to 30,
  and reversed from 33 to 22 and from 23 to 12.
\<close>

definition ex_sdbg :: SuccinctDBG where
  "ex_sdbg =
     \<lparr>OutgoingEdges = (\<lambda>x. if x = 11 then [20] else if x = 21 then [30]
                           else if x = 23 then [12] else if x = 33 then [22] else []),
      NextSimplePathEdge = (\<lambda>x. if x = 11 then 20 else if x = 21 then 30
                           else if x = 23 then 12 else if x = 33 then 22 else - 1),
      kNullID = - 1\<rparr>"

definition ex_vertex :: "64 word \<Rightarrow> UnitigGraphVertex" where
  "ex_vertex b =
     \<lparr>info_fwd = \<lparr>si_begin = b, si_end = b + 1, si_cached_out_degree = None\<rparr>,
      info_rev = \<lparr>si_begin = b + 2, si_end = b + 3, si_cached_out_degree = None\<rparr>\<rparr>"

definition ex_graph :: UnitigGraph where
  "ex_graph =
     \<lparr>sdbg = ex_sdbg, vertices = [ex_vertex 10, ex_vertex 20, ex_vertex 30],
      id_map = [10 \<mapsto> 0, 12 \<mapsto> 0, 20 \<mapsto> 1, 22 \<mapsto> 1, 30 \<mapsto> 2, 32 \<mapsto> 2],
      count_cache_used = 0, count_cache_missed = 0\<rparr>"

definition ex_adapter :: Adapter where
  "ex_adapter = \<lparr>a_vertex = Some 1, a_strand = 0, a_id = 1\<rparr>"

text \<open>
  The graph after \<open>GetPrevAdapters\<close> on \<open>ex_adapter\<close>: the fan-out 1 at the end 23 of the
  reversed vertex 1 is cached. And the graph with the end id 11 of vertex 0 as one more
  key of the map.
\<close>

definition ex_graph_prev :: UnitigGraph where
  "ex_graph_prev =
     ex_graph\<lparr>vertices := [ex_vertex 10,
        (ex_vertex 20)\<lparr>info_rev := (info_rev (ex_vertex 20))\<lparr>si_cached_out_degree := Some 1\<rparr>\<rparr>,
        ex_vertex 30]\<rparr>"

definition ex_key_graph :: UnitigGraph where
  "ex_key_graph = ex_graph\<lparr>id_map := (id_map ex_graph)(11 \<mapsto> 0)\<rparr>"

section \<open>Properties of the edge store\<close>

subsection \<open>Basic facts\<close>

lemma bind_err_simps [simp]:
  "bind_err (Inl e) f = Inl e"
  "bind_err (Inr x) f = f x"
  by (simp_all add: bind_err_def)

lemma bind_err_eq_Inr: "bind_err m f = Inr y \<longleftrightarrow> (\<exists>x. m = Inr x \<and> f x = Inr y)"
  by (cases m) simp_all

lemma at_idx_Inr: "0 \<le> i \<Longrightarrow> i < int (length xs) \<Longrightarrow> at_idx xs i = Inr (xs ! nat i)"
  by (simp add: at_idx_def)

lemma at_idx_eq_Inr: "at_idx xs i = Inr x \<longleftrightarrow> 0 \<le> i \<and> i < int (length xs) \<and> x = xs ! nat i"
  by (auto simp: at_idx_def)

lemma fwrite_Inr:
  "0 \<le> n \<Longrightarrow> n \<le> int (length buf) \<Longrightarrow> fs f = Some (Binary ws) \<Longrightarrow>
   fwrite buf n f fs = Inr (fs(f \<mapsto> Binary (ws @ take (nat n) buf)))"
  by (simp add: fwrite_def)

lemma fwrite_eq_Inr:
  "fwrite buf n f fs = Inr fs' \<longleftrightarrow>
     0 \<le> n \<and> n \<le> int (length buf)
     \<and> (\<exists>ws. fs f = Some (Binary ws) \<and> fs' = fs(f \<mapsto> Binary (ws @ take (nat n) buf)))"
  by (auto simp: fwrite_def split: option.splits fdata.splits)

lemma write_owned_elsewhere:
  assumes "0 \<le> tid" "tid < int (length (w_cur_bucket w))"
    and "0 \<le> bucket" "bucket < int (length (w_p_rec w))"
    and "bucket \<noteq> w_cur_bucket w ! nat tid"
    and "thread_id (w_p_rec w ! nat bucket) \<noteq> - 1"
  shows "EdgeWriter_write e bucket tid (w, fs) = Inl AssertionFailed"
  using assms by (simp add: EdgeWriter_write_def at_idx_Inr)

subsection \<open>The word-size formula\<close>

text \<open>
  Claim C3. For every k-mer size \<open>k\<close>, \<open>set_kmer_size(k)\<close> sets \<open>words_per_edge_\<close> to
  \<open>ceil(((k+1)*2+16)/32)\<close>; \<open>k = 21\<close> gives 2 words and \<open>k = 127\<close> gives 9 words. The
  k-mer sizes are the 32-bit values for which the \<^verbatim>\<open>int\<close> expression \<open>(k+1)*2+16\<close> is
  defined, that is \<open>-2^30-1 \<le> k \<le> 2^30-10\<close>.
\<close>

theorem set_kmer_size_words_per_edge:
  "(- (2 ^ 30) - 1 \<le> k \<and> k \<le> 2 ^ 30 - 10 \<longrightarrow>
      set_kmer_size k w =
        Inr (w\<lparr>w_kmer_size := k,
               w_words_per_edge := \<lceil>real_of_int ((k + 1) * 2 + 16) / 32\<rceil>\<rparr>))
   \<and> map_sum id w_words_per_edge (set_kmer_size 21 w) = Inr 2
   \<and> map_sum id w_words_per_edge (set_kmer_size 127 w) = Inr 9"
proof -
  have ceil: "\<lceil>real_of_int a / 32\<rceil> = DivCeiling a 32" for a
    using ceiling_divide_eq_div [of a 32] by (simp add: DivCeiling_def)
  have "set_kmer_size k w =
        Inr (w\<lparr>w_kmer_size := k,
               w_words_per_edge := \<lceil>real_of_int ((k + 1) * 2 + 16) / 32\<rceil>\<rparr>)"
    if "- (2 ^ 30) - 1 \<le> k" "k \<le> 2 ^ 30 - 10"
    using that unfolding ceil by (simp add: set_kmer_size_def int32_ok_def)
  moreover have "map_sum id w_words_per_edge (set_kmer_size 21 w) = Inr 2"
    by (simp add: set_kmer_size_def int32_ok_def DivCeiling_def)
  moreover have "map_sum id w_words_per_edge (set_kmer_size 127 w) = Inr 9"
    by (simp add: set_kmer_size_def int32_ok_def DivCeiling_def)
  ultimately show ?thesis by blast
qed

theorem set_kmer_size_words_per_edge_witness:
  "- (2 ^ 30) - 1 \<le> (31::int) \<and> (31::int) \<le> 2 ^ 30 - 10
   \<and> set_kmer_size 31 (EdgeWriter_new 0 0 0 0) =
       Inr ((EdgeWriter_new 0 0 0 0)\<lparr>w_kmer_size := 31, w_words_per_edge := 3\<rparr>)"
  using set_kmer_size_words_per_edge [of 31 "EdgeWriter_new 0 0 0 0"] by simp




subsection \<open>Teardown\<close>

lemma EdgeWriter_destroy_closed:
  "\<not> w_is_opened w \<Longrightarrow> EdgeWriter_destroy (w, fs) = Inr (w, fs)"
  by (simp add: EdgeWriter_destroy_def)

lemma EdgeWriter_destroy_opened:
  "w_is_opened w \<Longrightarrow> w_num_threads w \<le> int (length (w_files w)) \<Longrightarrow>
   EdgeWriter_destroy (w, fs) =
     Inr (w\<lparr>w_files := [], w_cur_bucket := [], w_cur_num_edges := [], w_p_rec := [],
            w_is_opened := False\<rparr>,
          fs(EdgesInfo (w_file_prefix w) \<mapsto>
             Text (info_tokens w (if \<not> w_unsorted w then sum_list (map total_number (w_p_rec w))
                                  else sum_list (w_num_unsorted_edges w)))))"
  by (simp add: EdgeWriter_destroy_def Let_def)

lemma EdgeWriter_destroy_result_closed:
  "EdgeWriter_destroy (w, fs) = Inr (w', fs') \<Longrightarrow> \<not> w_is_opened w'"
  by (cases "w_is_opened w") (auto simp: EdgeWriter_destroy_def Let_def split: if_splits)

lemma EdgeReader_destroy_result_closed:
  "EdgeReader_destroy r = Inr r' \<Longrightarrow> \<not> r_is_opened r'"
  by (cases "r_is_opened r") (auto simp: EdgeReader_destroy_def split: if_splits)


text \<open>
  Claim C5. \<open>EdgeWriter::destroy()\<close> and \<open>EdgeReader::destroy()\<close> are idempotent. The first
  call on an opened instance writes the metadata file (the writer), empties the vectors
  and clears \<open>is_opened_\<close>; a call on the instance a \<open>destroy()\<close> has returned changes
  neither the instance nor any file, whatever the file system holds by then.
\<close>

theorem destroy_idempotent:
  "(w_is_opened w \<and> w_num_threads w \<le> int (length (w_files w)) \<longrightarrow>
      (\<exists>w' fs'. EdgeWriter_destroy (w, fs) = Inr (w', fs')
         \<and> \<not> w_is_opened w' \<and> w_files w' = [] \<and> w_cur_bucket w' = []
         \<and> w_cur_num_edges w' = [] \<and> w_p_rec w' = []
         \<and> (\<exists>toks. fs' (EdgesInfo (w_file_prefix w)) = Some (Text toks))))
   \<and> (EdgeWriter_destroy (w, fs) = Inr (w1, fs1) \<longrightarrow>
        (\<forall>fs2. EdgeWriter_destroy (w1, fs2) = Inr (w1, fs2)))
   \<and> (r_is_opened r \<and> r_num_files r \<le> int (length (r_mmaps r))
        \<and> r_num_files r \<le> int (length (r_file_sizes r))
        \<and> r_num_files r \<le> int (length (r_fds r)) \<longrightarrow>
      (\<exists>r'. EdgeReader_destroy r = Inr r' \<and> \<not> r_is_opened r' \<and> r_mmaps r' = []
         \<and> r_fds r' = [] \<and> r_file_sizes r' = []))
   \<and> (EdgeReader_destroy r = Inr r1 \<longrightarrow> EdgeReader_destroy r1 = Inr r1)"
proof (intro conjI impI allI)
  assume "w_is_opened w \<and> w_num_threads w \<le> int (length (w_files w))"
  then show "\<exists>w' fs'. EdgeWriter_destroy (w, fs) = Inr (w', fs')
         \<and> \<not> w_is_opened w' \<and> w_files w' = [] \<and> w_cur_bucket w' = []
         \<and> w_cur_num_edges w' = [] \<and> w_p_rec w' = []
         \<and> (\<exists>toks. fs' (EdgesInfo (w_file_prefix w)) = Some (Text toks))"
    by (simp add: EdgeWriter_destroy_opened)
next
  fix fs2
  assume "EdgeWriter_destroy (w, fs) = Inr (w1, fs1)"
  then have "\<not> w_is_opened w1" by (rule EdgeWriter_destroy_result_closed)
  then show "EdgeWriter_destroy (w1, fs2) = Inr (w1, fs2)"
    by (rule EdgeWriter_destroy_closed)
next
  assume "r_is_opened r \<and> r_num_files r \<le> int (length (r_mmaps r))
        \<and> r_num_files r \<le> int (length (r_file_sizes r))
        \<and> r_num_files r \<le> int (length (r_fds r))"
  then show "\<exists>r'. EdgeReader_destroy r = Inr r' \<and> \<not> r_is_opened r' \<and> r_mmaps r' = []
         \<and> r_fds r' = [] \<and> r_file_sizes r' = []"
    by (simp add: EdgeReader_destroy_def)
next
  assume "EdgeReader_destroy r = Inr r1"
  then have "\<not> r_is_opened r1" by (rule EdgeReader_destroy_result_closed)
  then show "EdgeReader_destroy r1 = Inr r1" by (simp add: EdgeReader_destroy_def)
qed


theorem destroy_idempotent_witness:
  "w_is_opened ex_open_writer
   \<and> w_num_threads ex_open_writer \<le> int (length (w_files ex_open_writer))
   \<and> (\<exists>w' fs'. EdgeWriter_destroy (ex_open_writer, Map.empty) = Inr (w', fs')
         \<and> \<not> w_is_opened w' \<and> w_files w' = []
         \<and> EdgeWriter_destroy (w', fs') = Inr (w', fs'))
   \<and> r_is_opened ex_open_reader
   \<and> (\<exists>r'. EdgeReader_destroy ex_open_reader = Inr r' \<and> r_mmaps r' = []
         \<and> EdgeReader_destroy r' = Inr r')"
proof -
  obtain w' fs' where w: "EdgeWriter_destroy (ex_open_writer, Map.empty) = Inr (w', fs')"
    by (simp add: EdgeWriter_destroy_def ex_open_writer_def EdgeWriter_new_def Let_def)
  obtain r' where r: "EdgeReader_destroy ex_open_reader = Inr r'"
    by (simp add: EdgeReader_destroy_def ex_open_reader_def)
  have o: "w_is_opened ex_open_writer"
      "w_num_threads ex_open_writer \<le> int (length (w_files ex_open_writer))"
      "r_is_opened ex_open_reader"
      "r_num_files ex_open_reader \<le> int (length (r_mmaps ex_open_reader))"
      "r_num_files ex_open_reader \<le> int (length (r_file_sizes ex_open_reader))"
      "r_num_files ex_open_reader \<le> int (length (r_fds ex_open_reader))"
    by (simp_all add: ex_open_writer_def ex_open_reader_def EdgeWriter_new_def)
  show ?thesis
    using destroy_idempotent [of ex_open_writer Map.empty w' fs' ex_open_reader r'] w r o
    by auto
qed


subsection \<open>Bucket ownership\<close>

lemma write_claims:
  assumes "0 \<le> tid" "tid < int (length (w_cur_bucket w))"
    and "0 \<le> bucket" "bucket < int (length (w_p_rec w))"
    and "bucket \<noteq> w_cur_bucket w ! nat tid"
    and "thread_id (w_p_rec w ! nat bucket) = - 1"
    and "tid < int (length (w_cur_num_edges w))" "tid < int (length (w_files w))"
    and "0 \<le> w_words_per_edge w" "w_words_per_edge w \<le> int (length e)"
    and "fs (w_files w ! nat tid) = Some (Binary ws)"
  shows "EdgeWriter_write e bucket tid (w, fs) =
     Inr (w\<lparr>w_p_rec := (w_p_rec w)[nat bucket :=
               (w_p_rec w ! nat bucket)\<lparr>thread_id := tid,
                  starting_offset := w_cur_num_edges w ! nat tid,
                  total_number := total_number (w_p_rec w ! nat bucket) + 1\<rparr>],
            w_cur_bucket := (w_cur_bucket w)[nat tid := bucket],
            w_cur_num_edges := (w_cur_num_edges w)[nat tid := w_cur_num_edges w ! nat tid + 1]\<rparr>,
          fs(w_files w ! nat tid \<mapsto> Binary (ws @ take (nat (w_words_per_edge w)) e)))"
  using assms by (simp add: EdgeWriter_write_def at_idx_Inr fwrite_Inr)

lemma write_current:
  assumes "0 \<le> tid" "tid < int (length (w_cur_bucket w))"
    and "0 \<le> bucket" "bucket < int (length (w_p_rec w))"
    and "bucket = w_cur_bucket w ! nat tid"
    and "tid < int (length (w_cur_num_edges w))" "tid < int (length (w_files w))"
    and "0 \<le> w_words_per_edge w" "w_words_per_edge w \<le> int (length e)"
    and "fs (w_files w ! nat tid) = Some (Binary ws)"
  shows "EdgeWriter_write e bucket tid (w, fs) =
     Inr (w\<lparr>w_cur_num_edges := (w_cur_num_edges w)[nat tid := w_cur_num_edges w ! nat tid + 1],
            w_p_rec := (w_p_rec w)[nat bucket :=
               (w_p_rec w ! nat bucket)\<lparr>total_number := total_number (w_p_rec w ! nat bucket) + 1\<rparr>]\<rparr>,
          fs(w_files w ! nat tid \<mapsto> Binary (ws @ take (nat (w_words_per_edge w)) e)))"
  using assms by (simp add: EdgeWriter_write_def at_idx_Inr fwrite_Inr)

lemma write_Inr_cases:
  assumes "EdgeWriter_write e bucket tid (w, fs) = Inr s'"
  obtains ws where
    "0 \<le> tid" "tid < int (length (w_cur_bucket w))"
    "0 \<le> bucket" "bucket < int (length (w_p_rec w))"
    "tid < int (length (w_cur_num_edges w))" "tid < int (length (w_files w))"
    "0 \<le> w_words_per_edge w" "w_words_per_edge w \<le> int (length e)"
    "fs (w_files w ! nat tid) = Some (Binary ws)"
    "bucket \<noteq> w_cur_bucket w ! nat tid \<longrightarrow> thread_id (w_p_rec w ! nat bucket) = - 1"
proof -
  from assms obtain cb w1 f fs1 n pr where
    cb: "at_idx (w_cur_bucket w) tid = Inr cb"
    and w1: "(if bucket \<noteq> cb then
          bind_err (at_idx (w_p_rec w) bucket) (\<lambda>pr.
          if thread_id pr \<noteq> - 1 then Inl AssertionFailed
          else
            bind_err (at_idx (w_cur_num_edges w) tid) (\<lambda>n.
            Inr (w\<lparr>w_p_rec := (w_p_rec w)
                       [nat bucket := pr\<lparr>thread_id := tid, starting_offset := n\<rparr>],
                    w_cur_bucket := (w_cur_bucket w)[nat tid := bucket]\<rparr>)))
        else Inr w) = Inr w1"
    and f: "at_idx (w_files w1) tid = Inr f"
    and fs1: "fwrite e (w_words_per_edge w1) f fs = Inr fs1"
    and n: "at_idx (w_cur_num_edges w1) tid = Inr n"
    and pr: "at_idx (w_p_rec w1) bucket = Inr pr"
    unfolding EdgeWriter_write_def prod.case bind_err_eq_Inr by blast
  have same: "w_files w1 = w_files w" "w_words_per_edge w1 = w_words_per_edge w"
    "w_cur_num_edges w1 = w_cur_num_edges w" "length (w_p_rec w1) = length (w_p_rec w)"
    using w1 by (auto simp: bind_err_eq_Inr split: if_splits)
  have claim: "bucket \<noteq> w_cur_bucket w ! nat tid \<longrightarrow> thread_id (w_p_rec w ! nat bucket) = - 1"
    using w1 cb by (auto simp: bind_err_eq_Inr at_idx_eq_Inr split: if_splits)
  from fs1 obtain ws where "fs f = Some (Binary ws)" by (auto simp: fwrite_eq_Inr)
  then show ?thesis
    using that [of ws] cb f fs1 n pr same claim
    by (auto simp: at_idx_eq_Inr fwrite_eq_Inr)
qed

lemma thread_ops_snoc:
  "thread_ops t (ops @ [(e, b, t')]) = (if t' = t then thread_ops t ops @ [(e, b, t')] else thread_ops t ops)"
  by (simp add: thread_ops_def)

lemma bucket_ops_snoc:
  "bucket_ops b (ops @ [(e, b', t)]) = (if b' = b then bucket_ops b ops @ [(e, b', t)] else bucket_ops b ops)"
  by (simp add: bucket_ops_def)

lemma records_of_snoc:
  "records_of wpe (ops @ [(e, b, t)]) = records_of wpe ops @ [take (nat wpe) e]"
  by (simp add: records_of_def)

lemma take_drop_append_inside:
  "k + n \<le> length xs \<Longrightarrow> take n (drop k (xs @ ys)) = take n (drop k xs)"
  by simp

lemma take_drop_snoc_end:
  "k + n = length xs \<Longrightarrow> take (Suc n) (drop k (xs @ [y])) = take n (drop k xs) @ [y]"
  by simp

lemma write_frame:
  assumes "EdgeWriter_write e bucket tid (w, fs) = Inr (w', fs')"
  shows "w_kmer_size w' = w_kmer_size w \<and> w_words_per_edge w' = w_words_per_edge w
     \<and> w_num_threads w' = w_num_threads w \<and> w_num_buckets w' = w_num_buckets w
     \<and> w_unsorted w' = w_unsorted w \<and> w_num_unsorted_edges w' = w_num_unsorted_edges w
     \<and> w_file_prefix w' = w_file_prefix w \<and> w_files w' = w_files w
     \<and> w_is_opened w' = w_is_opened w
     \<and> length (w_cur_bucket w') = length (w_cur_bucket w)
     \<and> length (w_cur_num_edges w') = length (w_cur_num_edges w)
     \<and> length (w_p_rec w') = length (w_p_rec w)"
proof -
  from assms obtain ws where c:
    "0 \<le> tid" "tid < int (length (w_cur_bucket w))"
    "0 \<le> bucket" "bucket < int (length (w_p_rec w))"
    "tid < int (length (w_cur_num_edges w))" "tid < int (length (w_files w))"
    "0 \<le> w_words_per_edge w" "w_words_per_edge w \<le> int (length e)"
    "fs (w_files w ! nat tid) = Some (Binary ws)"
    "bucket \<noteq> w_cur_bucket w ! nat tid \<longrightarrow> thread_id (w_p_rec w ! nat bucket) = - 1"
    by (rule write_Inr_cases)
  show ?thesis
  proof (cases "bucket = w_cur_bucket w ! nat tid")
    case True
    have "EdgeWriter_write e bucket tid (w, fs) =
     Inr (w\<lparr>w_cur_num_edges := (w_cur_num_edges w)[nat tid := w_cur_num_edges w ! nat tid + 1],
            w_p_rec := (w_p_rec w)[nat bucket :=
               (w_p_rec w ! nat bucket)\<lparr>total_number := total_number (w_p_rec w ! nat bucket) + 1\<rparr>]\<rparr>,
          fs(w_files w ! nat tid \<mapsto> Binary (ws @ take (nat (w_words_per_edge w)) e)))"
      using c True by (intro write_current) simp_all
    with assms show ?thesis by auto
  next
    case False
    with c(10) have "thread_id (w_p_rec w ! nat bucket) = - 1" by simp
    with c False have "EdgeWriter_write e bucket tid (w, fs) =
     Inr (w\<lparr>w_p_rec := (w_p_rec w)[nat bucket :=
               (w_p_rec w ! nat bucket)\<lparr>thread_id := tid,
                  starting_offset := w_cur_num_edges w ! nat tid,
                  total_number := total_number (w_p_rec w ! nat bucket) + 1\<rparr>],
            w_cur_bucket := (w_cur_bucket w)[nat tid := bucket],
            w_cur_num_edges := (w_cur_num_edges w)[nat tid := w_cur_num_edges w ! nat tid + 1]\<rparr>,
          fs(w_files w ! nat tid \<mapsto> Binary (ws @ take (nat (w_words_per_edge w)) e)))"
      by (intro write_claims) simp_all
    with assms show ?thesis by auto
  qed
qed

lemma writer_inv_step:
  assumes inv: "writer_inv ops (w, fs)"
    and wr: "EdgeWriter_write e bucket tid (w, fs) = Inr (w', fs')"
  shows "writer_inv (ops @ [(e, bucket, tid)]) (w', fs')"
proof -
  let ?N = "length (w_cur_bucket w)"
  let ?B = "length (w_p_rec w)"
  let ?tops = "thread_ops tid ops"
  from inv have files: "w_files w = map (\<lambda>i. EdgesFile (w_file_prefix w) (int i)) [0..<?N]"
    and len: "length (w_cur_num_edges w) = ?N"
    and TI: "\<And>t. t < ?N \<Longrightarrow> thread_inv w fs ops t"
    and BI: "\<And>b. b < ?B \<Longrightarrow> bucket_inv w ops b"
    by (auto simp: writer_inv_def)
  from wr obtain ws where c:
    "0 \<le> tid" "tid < int (length (w_cur_bucket w))"
    "0 \<le> bucket" "bucket < int (length (w_p_rec w))"
    "tid < int (length (w_cur_num_edges w))" "tid < int (length (w_files w))"
    "0 \<le> w_words_per_edge w" "w_words_per_edge w \<le> int (length e)"
    "fs (w_files w ! nat tid) = Some (Binary ws)"
    "bucket \<noteq> w_cur_bucket w ! nat tid \<longrightarrow> thread_id (w_p_rec w ! nat bucket) = - 1"
    by (rule write_Inr_cases)
  define T where "T = nat tid"
  define K where "K = nat bucket"
  have T: "T < ?N" "int T = tid" "nat tid = T" and K: "K < ?B" "int K = bucket" "nat bucket = K"
    using c by (simp_all add: T_def K_def)
  have fT: "w_files w ! T = EdgesFile (w_file_prefix w) tid"
    using files T by simp
  have tiT: "thread_inv w fs ops T" using TI T by simp
  have ws: "ws = concat (records_of (w_words_per_edge w) ?tops)"
    and cnt: "w_cur_num_edges w ! T = int (length ?tops)"
    using tiT c(9) fT T by (simp_all add: thread_inv_def Let_def)
  let ?fs' = "fs(EdgesFile (w_file_prefix w) tid \<mapsto>
      Binary (concat (records_of (w_words_per_edge w) (?tops @ [(e, bucket, tid)]))))"
  have fs_eq: "fs(w_files w ! nat tid \<mapsto> Binary (ws @ take (nat (w_words_per_edge w)) e)) = ?fs'"
    using fT T ws by (simp add: records_of_snoc)
  show ?thesis
  proof (cases "bucket = w_cur_bucket w ! T")
    case True
    have "EdgeWriter_write e bucket tid (w, fs) =
     Inr (w\<lparr>w_cur_num_edges := (w_cur_num_edges w)[nat tid := w_cur_num_edges w ! nat tid + 1],
            w_p_rec := (w_p_rec w)[nat bucket :=
               (w_p_rec w ! nat bucket)\<lparr>total_number := total_number (w_p_rec w ! nat bucket) + 1\<rparr>]\<rparr>,
          fs(w_files w ! nat tid \<mapsto> Binary (ws @ take (nat (w_words_per_edge w)) e)))"
      using c True T by (intro write_current) simp_all
    with wr fs_eq T K cnt have w': "w' = w\<lparr>w_cur_num_edges := (w_cur_num_edges w)[T := int (length ?tops) + 1],
            w_p_rec := (w_p_rec w)[K := (w_p_rec w ! K)\<lparr>total_number := total_number (w_p_rec w ! K) + 1\<rparr>]\<rparr>"
      and fs': "fs' = ?fs'" by simp_all
    from tiT True c(3) K have own: "thread_id (w_p_rec w ! K) = tid"
      and full: "starting_offset (w_p_rec w ! K) + total_number (w_p_rec w ! K) = int (length ?tops)"
      by (auto simp: thread_inv_def Let_def T)
    from BI [of K] K own c(1) have off: "0 \<le> starting_offset (w_p_rec w ! K)"
      and tot: "0 < total_number (w_p_rec w ! K)"
      and bops: "bucket_ops bucket ops = take (nat (total_number (w_p_rec w ! K)))
                     (drop (nat (starting_offset (w_p_rec w ! K))) ?tops)"
      by (auto simp: bucket_inv_def Let_def)
    have thr: "thread_inv w' fs' (ops @ [(e, bucket, tid)]) t" if t: "t < ?N" for t
    proof (cases "t = T")
      case True
      then show ?thesis
        using tiT T K own full \<open>bucket = w_cur_bucket w ! T\<close> c(3) len
        by (simp add: thread_inv_def Let_def w' fs' thread_ops_snoc)
    next
      case False
      from TI [OF t] have ti: "thread_inv w fs ops t" .
      have ne: "int t \<noteq> tid" using False T by auto
      have "w_cur_bucket w ! t = - 1 \<or> nat (w_cur_bucket w ! t) \<noteq> K"
        using ti own ne by (auto simp: thread_inv_def Let_def)
      then show ?thesis
        using ti False ne
        by (auto simp: thread_inv_def Let_def w' fs' thread_ops_snoc)
    qed
    have bkt: "bucket_inv w' (ops @ [(e, bucket, tid)]) b" if b: "b < ?B" for b
    proof (cases "b = K")
      case True
      have "take (Suc (nat (total_number (w_p_rec w ! K))))
              (drop (nat (starting_offset (w_p_rec w ! K))) (?tops @ [(e, bucket, tid)]))
            = bucket_ops bucket ops @ [(e, bucket, tid)]"
        unfolding bops using full off tot by (intro take_drop_snoc_end) linarith
      moreover have "nat (total_number (w_p_rec w ! K) + 1) = Suc (nat (total_number (w_p_rec w ! K)))"
        using tot by simp
      moreover have "length (bucket_ops bucket ops) = nat (total_number (w_p_rec w ! K))"
        unfolding bops using full off tot by simp
      ultimately show ?thesis
        using True K own off tot full c(1,2)
        by (simp add: bucket_inv_def Let_def w' thread_ops_snoc bucket_ops_snoc)
    next
      case False
      from BI [OF b] have bi: "bucket_inv w ops b" .
      have ne: "bucket \<noteq> int b" using False K by auto
      show ?thesis
        using bi False ne b
        by (auto simp: bucket_inv_def Let_def w' thread_ops_snoc bucket_ops_snoc)
    qed
    show ?thesis
      unfolding writer_inv_def prod.case
      using files len thr bkt by (simp add: w')
  next
    case False
    with c(10) T have un: "thread_id (w_p_rec w ! K) = - 1" by (simp add: K)
    with c False T have "EdgeWriter_write e bucket tid (w, fs) =
     Inr (w\<lparr>w_p_rec := (w_p_rec w)[nat bucket :=
               (w_p_rec w ! nat bucket)\<lparr>thread_id := tid,
                  starting_offset := w_cur_num_edges w ! nat tid,
                  total_number := total_number (w_p_rec w ! nat bucket) + 1\<rparr>],
            w_cur_bucket := (w_cur_bucket w)[nat tid := bucket],
            w_cur_num_edges := (w_cur_num_edges w)[nat tid := w_cur_num_edges w ! nat tid + 1]\<rparr>,
          fs(w_files w ! nat tid \<mapsto> Binary (ws @ take (nat (w_words_per_edge w)) e)))"
      by (intro write_claims) (simp_all add: K)
    moreover from BI [of K] K un have tot0: "total_number (w_p_rec w ! K) = 0"
      and nob: "bucket_ops bucket ops = []"
      by (auto simp: bucket_inv_def Let_def)
    ultimately have w': "w' = w\<lparr>w_p_rec := (w_p_rec w)[K :=
               (w_p_rec w ! K)\<lparr>thread_id := tid, starting_offset := int (length ?tops),
                  total_number := 1\<rparr>],
            w_cur_bucket := (w_cur_bucket w)[T := bucket],
            w_cur_num_edges := (w_cur_num_edges w)[T := int (length ?tops) + 1]\<rparr>"
      and fs': "fs' = ?fs'" using wr fs_eq T K cnt by simp_all
    have thr: "thread_inv w' fs' (ops @ [(e, bucket, tid)]) t" if t: "t < ?N" for t
    proof (cases "t = T")
      case True
      then show ?thesis
        using tiT T K c(3) len
        by (simp add: thread_inv_def Let_def w' fs' thread_ops_snoc)
    next
      case False
      from TI [OF t] have ti: "thread_inv w fs ops t" .
      have ne: "int t \<noteq> tid" using False T by auto
      have "w_cur_bucket w ! t = - 1 \<or> nat (w_cur_bucket w ! t) \<noteq> K"
        using ti un ne by (auto simp: thread_inv_def Let_def)
      then show ?thesis
        using ti False ne t
        by (auto simp: thread_inv_def Let_def w' fs' thread_ops_snoc)
    qed
    have bkt: "bucket_inv w' (ops @ [(e, bucket, tid)]) b" if b: "b < ?B" for b
    proof (cases "b = K")
      case True
      then show ?thesis
        using K nob c(1,2)
        by (simp add: bucket_inv_def Let_def w' thread_ops_snoc bucket_ops_snoc)
    next
      case False
      from BI [OF b] have bi: "bucket_inv w ops b" .
      have ne: "bucket \<noteq> int b" using False K by auto
      show ?thesis
        using bi False ne b
        by (auto simp: bucket_inv_def Let_def w' thread_ops_snoc bucket_ops_snoc)
    qed
    show ?thesis
      unfolding writer_inv_def prod.case
      using files len thr bkt by (simp add: w')
  qed
qed

lemma open_edge_files_apply:
  "open_edge_files prefix n fs f =
     (if \<exists>i<n. f = EdgesFile prefix (int i) then Some (Binary []) else fs f)"
  unfolding open_edge_files_def
  by (induction n arbitrary: f) (auto simp: less_Suc_eq)

lemma init_files_result:
  assumes "closed_writer w0" and "EdgeWriter_init_files (w0, fs0) = Inr (w, fs)"
  shows "0 \<le> w_num_threads w0" "0 \<le> w_num_buckets w0"
    "w = w0\<lparr>w_files := map (\<lambda>i. EdgesFile (w_file_prefix w0) (int i)) [0..<nat (w_num_threads w0)],
             w_cur_bucket := replicate (nat (w_num_threads w0)) (- 1),
             w_cur_num_edges := replicate (nat (w_num_threads w0)) 0,
             w_p_rec := replicate (nat (w_num_buckets w0)) PartitionRecord_new,
             w_is_opened := True\<rparr>"
    "fs = open_edge_files (w_file_prefix w0) (nat (w_num_threads w0)) fs0"
  using assms
  by (auto simp: closed_writer_def EdgeWriter_init_files_def Let_def resize_def split: if_splits)

lemma init_files_inv:
  assumes "closed_writer w0" and "EdgeWriter_init_files (w0, fs0) = Inr (w, fs)"
  shows "writer_inv [] (w, fs)"
  unfolding init_files_result(3,4) [OF assms] writer_inv_def prod.case
  by (simp add: thread_inv_def bucket_inv_def thread_ops_def bucket_ops_def records_of_def
      open_edge_files_apply PartitionRecord_new_def)

lemma run_writes_inv:
  "writer_inv pre s \<Longrightarrow> run_writes ops s = Inr s' \<Longrightarrow> writer_inv (pre @ ops) s'"
proof (induction ops arbitrary: pre s)
  case Nil
  then show ?case by simp
next
  case (Cons op ops)
  obtain e b t where op: "op = (e, b, t)" by (cases op)
  from Cons.prems(2) obtain s1 where s1: "EdgeWriter_write e b t s = Inr s1"
    and rest: "run_writes ops s1 = Inr s'"
    by (auto simp: op bind_err_eq_Inr)
  have "writer_inv (pre @ [(e, b, t)]) s1"
    using writer_inv_step [of pre "fst s" "snd s" e b t "fst s1" "snd s1"] Cons.prems(1) s1
    by simp
  from Cons.IH [OF this rest] show ?case by (simp add: op)
qed

lemma run_writes_frame:
  "run_writes ops (w, fs) = Inr (w', fs') \<Longrightarrow>
   w_words_per_edge w' = w_words_per_edge w \<and> w_file_prefix w' = w_file_prefix w
   \<and> w_num_threads w' = w_num_threads w \<and> w_num_buckets w' = w_num_buckets w
   \<and> w_kmer_size w' = w_kmer_size w \<and> w_unsorted w' = w_unsorted w
   \<and> w_num_unsorted_edges w' = w_num_unsorted_edges w
   \<and> w_is_opened w' = w_is_opened w \<and> w_files w' = w_files w
   \<and> length (w_cur_bucket w') = length (w_cur_bucket w)
   \<and> length (w_cur_num_edges w') = length (w_cur_num_edges w)
   \<and> length (w_p_rec w') = length (w_p_rec w)"
proof (induction ops arbitrary: w fs)
  case Nil
  then show ?case by simp
next
  case (Cons op ops)
  obtain e b t where op: "op = (e, b, t)" by (cases op)
  from Cons.prems obtain w1 fs1 where s1: "EdgeWriter_write e b t (w, fs) = Inr (w1, fs1)"
    and rest: "run_writes ops (w1, fs1) = Inr (w', fs')"
    by (auto simp: op bind_err_eq_Inr)
  from write_frame [OF s1] Cons.IH [OF rest] show ?case by simp
qed

subsection \<open>Runs of calls\<close>

lemma concat_take_uniform:
  "\<forall>r\<in>set rs. length r = n \<Longrightarrow> take (k * n) (concat rs) = concat (take k rs)"
proof (induction rs arbitrary: k)
  case Nil
  then show ?case by simp
next
  case (Cons r rs)
  then show ?case by (cases k) simp_all
qed

lemma concat_drop_uniform:
  "\<forall>r\<in>set rs. length r = n \<Longrightarrow> drop (k * n) (concat rs) = concat (drop k rs)"
proof (induction rs arbitrary: k)
  case Nil
  then show ?case by simp
next
  case (Cons r rs)
  then show ?case by (cases k) simp_all
qed

lemma concat_slice_uniform:
  assumes "\<forall>r\<in>set rs. length r = n"
  shows "take (k * n) (drop (j * n) (concat rs)) = concat (take k (drop j rs))"
proof -
  have "\<forall>r\<in>set (drop j rs). length r = n"
    using assms by (meson in_set_dropD)
  then show ?thesis
    by (simp add: concat_drop_uniform [OF assms] concat_take_uniform)
qed

lemma run_writes_ops_ok:
  "run_writes ops (w, fs) = Inr s' \<Longrightarrow> (e, b, t) \<in> set ops \<Longrightarrow>
   0 \<le> w_words_per_edge w \<and> w_words_per_edge w \<le> int (length e)
   \<and> 0 \<le> t \<and> t < int (length (w_cur_bucket w)) \<and> 0 \<le> b \<and> b < int (length (w_p_rec w))"
proof (induction ops arbitrary: w fs)
  case Nil
  then show ?case by simp
next
  case (Cons op ops)
  obtain e1 b1 t1 where op: "op = (e1, b1, t1)" by (cases op)
  from Cons.prems(1) obtain w1 fs1 where s1: "EdgeWriter_write e1 b1 t1 (w, fs) = Inr (w1, fs1)"
    and rest: "run_writes ops (w1, fs1) = Inr s'"
    by (auto simp: op bind_err_eq_Inr)
  show ?case
  proof (cases "(e, b, t) = op")
    case True
    with s1 op show ?thesis by (auto elim!: write_Inr_cases)
  next
    case False
    with Cons.prems(2) have "(e, b, t) \<in> set ops" by simp
    from Cons.IH [OF rest this] write_frame [OF s1] show ?thesis by simp
  qed
qed

lemma records_of_uniform:
  assumes "\<forall>(e, b, t)\<in>set ops. 0 \<le> wpe \<and> wpe \<le> int (length e)"
  shows "\<forall>r\<in>set (records_of wpe ops). length r = nat wpe"
  using assms by (auto simp: records_of_def)

lemma records_of_take_drop:
  "records_of wpe (take k (drop j ops)) = take k (drop j (records_of wpe ops))"
  by (simp add: records_of_def take_map drop_map)

lemma reached_inv:
  assumes "closed_writer w0" and "EdgeWriter_init_files (w0, fs0) = Inr s0"
    and "run_writes ops s0 = Inr (w1, fs1)"
  shows "writer_inv ops (w1, fs1)"
    and "w_words_per_edge w1 = w_words_per_edge w0" and "w_file_prefix w1 = w_file_prefix w0"
    and "int (length (w_cur_bucket w1)) = w_num_threads w0"
    and "int (length (w_p_rec w1)) = w_num_buckets w0"
    and "\<forall>(e, b, t)\<in>set ops. 0 \<le> w_words_per_edge w0 \<and> w_words_per_edge w0 \<le> int (length e)"
proof -
  obtain w fs where s0: "s0 = (w, fs)" by (cases s0)
  note init = init_files_result [OF assms(1) assms(2) [unfolded s0]]
  have "writer_inv [] s0" unfolding s0 using assms(1,2) s0 by (intro init_files_inv) simp_all
  from run_writes_inv [OF this assms(3)] show "writer_inv ops (w1, fs1)" by simp
  from run_writes_frame [OF assms(3) [unfolded s0]] init
  show "w_words_per_edge w1 = w_words_per_edge w0" "w_file_prefix w1 = w_file_prefix w0"
    "int (length (w_cur_bucket w1)) = w_num_threads w0"
    "int (length (w_p_rec w1)) = w_num_buckets w0"
    by simp_all
  have "w_words_per_edge w = w_words_per_edge w0" using init by simp
  with run_writes_ops_ok [OF assms(3) [unfolded s0]]
  show "\<forall>(e, b, t)\<in>set ops. 0 \<le> w_words_per_edge w0 \<and> w_words_per_edge w0 \<le> int (length e)"
    by auto
qed

text \<open>
  Claim C10. \<open>write\<close> fails its assertion whenever the bucket is not the calling thread's
  current bucket and has an owner, whichever thread that is (the caller included). So
  after a history of calls that all return, the calls of a bucket are one contiguous run
  of its owner's calls: the \<open>total_number\<close> calls from position \<open>starting_offset\<close> on,
  and their records are the words \<open>words_per_edge * starting_offset\<close> up to
  \<open>words_per_edge * (starting_offset + total_number)\<close> of the owner's file. A bucket
  without an owner has no call.
\<close>

theorem bucket_run_contiguous:
  "(0 \<le> tid \<and> tid < int (length (w_cur_bucket w)) \<and> 0 \<le> bucket
      \<and> bucket < int (length (w_p_rec w)) \<and> bucket \<noteq> w_cur_bucket w ! nat tid
      \<and> thread_id (w_p_rec w ! nat bucket) \<noteq> - 1
      \<longrightarrow> EdgeWriter_write e bucket tid (w, fs) = Inl AssertionFailed)
   \<and> (closed_writer w0 \<and> EdgeWriter_init_files (w0, fs0) = Inr s0
       \<and> run_writes ops s0 = Inr (w1, fs1) \<and> 0 \<le> b \<and> b < w_num_buckets w0
      \<longrightarrow>
       (let pr = w_p_rec w1 ! nat b; t = thread_id pr; wpe = w_words_per_edge w0;
            file = concat (records_of wpe (thread_ops t ops))
        in if t = - 1 then bucket_ops b ops = []
           else 0 \<le> t \<and> t < w_num_threads w0
             \<and> fs1 (EdgesFile (w_file_prefix w0) t) = Some (Binary file)
             \<and> bucket_ops b ops =
                 take (nat (total_number pr)) (drop (nat (starting_offset pr)) (thread_ops t ops))
             \<and> concat (records_of wpe (bucket_ops b ops)) =
                 take (nat (wpe * total_number pr)) (drop (nat (wpe * starting_offset pr)) file)))"
proof (intro conjI impI)
  assume "0 \<le> tid \<and> tid < int (length (w_cur_bucket w)) \<and> 0 \<le> bucket
      \<and> bucket < int (length (w_p_rec w)) \<and> bucket \<noteq> w_cur_bucket w ! nat tid
      \<and> thread_id (w_p_rec w ! nat bucket) \<noteq> - 1"
  then show "EdgeWriter_write e bucket tid (w, fs) = Inl AssertionFailed"
    by (intro write_owned_elsewhere) simp_all
next
  assume a: "closed_writer w0 \<and> EdgeWriter_init_files (w0, fs0) = Inr s0
       \<and> run_writes ops s0 = Inr (w1, fs1) \<and> 0 \<le> b \<and> b < w_num_buckets w0"
  then have cw: "closed_writer w0" and init: "EdgeWriter_init_files (w0, fs0) = Inr s0"
    and run: "run_writes ops s0 = Inr (w1, fs1)" and b: "0 \<le> b" "b < w_num_buckets w0"
    by simp_all
  note r = reached_inv [OF cw init run]
  define pr where "pr = w_p_rec w1 ! nat b"
  define t where "t = thread_id pr"
  define wpe where "wpe = w_words_per_edge w0"
  let ?tops = "thread_ops t ops"
  have bi: "bucket_inv w1 ops (nat b)"
    using r(1) r(5) b by (simp add: writer_inv_def)
  have goal: "if t = - 1 then bucket_ops b ops = []
           else 0 \<le> t \<and> t < w_num_threads w0
             \<and> fs1 (EdgesFile (w_file_prefix w0) t) = Some (Binary (concat (records_of wpe ?tops)))
             \<and> bucket_ops b ops =
                 take (nat (total_number pr)) (drop (nat (starting_offset pr)) ?tops)
             \<and> concat (records_of wpe (bucket_ops b ops)) =
                 take (nat (wpe * total_number pr))
                   (drop (nat (wpe * starting_offset pr)) (concat (records_of wpe ?tops)))"
  proof (cases "t = - 1")
    case True
    with bi b show ?thesis by (auto simp: bucket_inv_def Let_def pr_def t_def)
  next
    case False
    with bi b have t: "0 \<le> t" "t < int (length (w_cur_bucket w1))"
      and off: "0 \<le> starting_offset pr" and tot: "0 < total_number pr"
      and le: "starting_offset pr + total_number pr \<le> int (length ?tops)"
      and bops: "bucket_ops b ops =
                 take (nat (total_number pr)) (drop (nat (starting_offset pr)) ?tops)"
      by (auto simp: bucket_inv_def Let_def pr_def t_def)
    have "thread_inv w1 fs1 ops (nat t)"
      using r(1) t by (simp add: writer_inv_def)
    then have fl: "fs1 (EdgesFile (w_file_prefix w0) t) = Some (Binary (concat (records_of wpe ?tops)))"
      using t r(2,3) by (simp add: thread_inv_def Let_def wpe_def)
    from off tot le have "?tops \<noteq> []" by auto
    then obtain x where "x \<in> set ?tops" by (cases ?tops) auto
    then have "x \<in> set ops" by (simp add: thread_ops_def)
    with r(6) have "case x of (e, b, t) \<Rightarrow>
        0 \<le> w_words_per_edge w0 \<and> w_words_per_edge w0 \<le> int (length e)"
      by (rule bspec)
    then have wpe0: "0 \<le> wpe" by (cases x) (simp add: wpe_def)
    have "\<forall>(e, b, t)\<in>set ?tops. 0 \<le> wpe \<and> wpe \<le> int (length e)"
      using r(6) by (auto simp: thread_ops_def wpe_def)
    then have uni: "\<forall>r\<in>set (records_of wpe ?tops). length r = nat wpe"
      by (rule records_of_uniform)
    have "concat (records_of wpe (bucket_ops b ops)) =
          take (nat (total_number pr) * nat wpe)
            (drop (nat (starting_offset pr) * nat wpe) (concat (records_of wpe ?tops)))"
      unfolding bops records_of_take_drop concat_slice_uniform [OF uni] ..
    moreover have "nat (wpe * total_number pr) = nat (total_number pr) * nat wpe"
      "nat (wpe * starting_offset pr) = nat (starting_offset pr) * nat wpe"
      using wpe0 off tot by (simp_all add: nat_mult_distrib mult.commute)
    ultimately show ?thesis
      using False t r(4) fl bops by simp
  qed
  then show "let pr = w_p_rec w1 ! nat b; t = thread_id pr; wpe = w_words_per_edge w0;
            file = concat (records_of wpe (thread_ops t ops))
        in if t = - 1 then bucket_ops b ops = []
           else 0 \<le> t \<and> t < w_num_threads w0
             \<and> fs1 (EdgesFile (w_file_prefix w0) t) = Some (Binary file)
             \<and> bucket_ops b ops =
                 take (nat (total_number pr)) (drop (nat (starting_offset pr)) (thread_ops t ops))
             \<and> concat (records_of wpe (bucket_ops b ops)) =
                 take (nat (wpe * total_number pr)) (drop (nat (wpe * starting_offset pr)) file)"
    unfolding Let_def pr_def t_def wpe_def .
qed

lemma ex_sorted_init:
  "EdgeWriter_init_files (ex_sorted_writer, Map.empty) =
     Inr (ex_sorted_writer\<lparr>w_files := [EdgesFile ''p'' 0, EdgesFile ''p'' 1],
            w_cur_bucket := [- 1, - 1], w_cur_num_edges := [0, 0],
            w_p_rec := [PartitionRecord_new, PartitionRecord_new, PartitionRecord_new],
            w_is_opened := True\<rparr>,
          open_edge_files ''p'' 2 Map.empty)"
  by (simp add: EdgeWriter_init_files_def ex_sorted_writer_def EdgeWriter_new_def
      set_num_buckets_def set_num_threads_def set_file_prefix_def resize_def Let_def
      upt_rec numeral_2_eq_2 numeral_3_eq_3)

lemma ex_sorted_run:
  "\<exists>w1 fs1. run_writes ex_sorted_ops ex_sorted_opened = Inr (w1, fs1)
     \<and> w_p_rec w1 = [\<lparr>thread_id = 0, starting_offset = 0, total_number = 2\<rparr>,
                     \<lparr>thread_id = 0, starting_offset = 2, total_number = 1\<rparr>,
                     \<lparr>thread_id = 1, starting_offset = 0, total_number = 1\<rparr>]
     \<and> w_cur_bucket w1 = [1, 2] \<and> w_cur_num_edges w1 = [3, 1]
     \<and> w_files w1 = [EdgesFile ''p'' 0, EdgesFile ''p'' 1] \<and> w_words_per_edge w1 = 2
     \<and> fs1 (EdgesFile ''p'' 0) = Some (Binary [1, 2, 3, 4, 7, 8])
     \<and> fs1 (EdgesFile ''p'' 1) = Some (Binary [5, 6])"
  by (simp add: ex_sorted_ops_def ex_sorted_opened_def ex_sorted_writer_def EdgeWriter_new_def
      set_num_buckets_def set_num_threads_def set_file_prefix_def
      EdgeWriter_write_def at_idx_def fwrite_def open_edge_files_def PartitionRecord_new_def
      upt_rec numeral_2_eq_2)

lemma ex_sorted_run_prefix:
  "\<exists>w1 fs1. run_writes (take 2 ex_sorted_ops) ex_sorted_opened = Inr (w1, fs1)"
  by (simp add: ex_sorted_ops_def ex_sorted_opened_def ex_sorted_writer_def EdgeWriter_new_def
      set_num_buckets_def set_num_threads_def set_file_prefix_def
      EdgeWriter_write_def at_idx_def fwrite_def open_edge_files_def PartitionRecord_new_def
      upt_rec numeral_2_eq_2)

lemma ex_sorted_closed:
  "closed_writer ex_sorted_writer" "w_num_threads ex_sorted_writer = 2"
  "w_num_buckets ex_sorted_writer = 3" "w_words_per_edge ex_sorted_writer = 2"
  "w_file_prefix ex_sorted_writer = ''p''"
  by (simp_all add: closed_writer_def ex_sorted_writer_def EdgeWriter_new_def
      set_num_buckets_def set_num_threads_def set_file_prefix_def)

lemma first_write_claims:
  assumes cw: "closed_writer w0" and init: "EdgeWriter_init_files (w0, fs0) = Inr s0"
    and run: "run_writes ops s0 = Inr (w1, fs1)"
    and fresh: "bucket_ops b ops = []"
    and t: "0 \<le> t" "t < w_num_threads w0" and b: "0 \<le> b" "b < w_num_buckets w0"
    and e: "0 \<le> w_words_per_edge w0" "w_words_per_edge w0 \<le> int (length e)"
  shows "\<exists>w2 fs2. EdgeWriter_write e b t (w1, fs1) = Inr (w2, fs2)
           \<and> thread_id (w_p_rec w2 ! nat b) = t
           \<and> starting_offset (w_p_rec w2 ! nat b) = w_cur_num_edges w1 ! nat t
           \<and> w_cur_num_edges w1 ! nat t = int (length (thread_ops t ops))
           \<and> total_number (w_p_rec w2 ! nat b) = 1
           \<and> w_cur_num_edges w2 ! nat t = w_cur_num_edges w1 ! nat t + 1
           \<and> w_cur_bucket w2 ! nat t = b"
proof -
  note r = reached_inv [OF cw init run]
  have tl: "nat t < length (w_cur_bucket w1)" and bl: "nat b < length (w_p_rec w1)"
    using r(4,5) t b by simp_all
  have bi: "bucket_inv w1 ops (nat b)" and ti: "thread_inv w1 fs1 ops (nat t)"
    and files: "w_files w1 = map (\<lambda>i. EdgesFile (w_file_prefix w1) (int i)) [0..<length (w_cur_bucket w1)]"
    and len: "length (w_cur_num_edges w1) = length (w_cur_bucket w1)"
    using r(1) tl bl by (simp_all add: writer_inv_def)
  from bi fresh b have un: "thread_id (w_p_rec w1 ! nat b) = - 1"
    and tot0: "total_number (w_p_rec w1 ! nat b) = 0"
    by (auto simp: bucket_inv_def Let_def)
  from ti un t b have ne: "b \<noteq> w_cur_bucket w1 ! nat t"
    by (auto simp: thread_inv_def Let_def)
  from ti t have cnt: "w_cur_num_edges w1 ! nat t = int (length (thread_ops t ops))"
    and fl: "fs1 (EdgesFile (w_file_prefix w1) t) =
       Some (Binary (concat (records_of (w_words_per_edge w1) (thread_ops t ops))))"
    by (simp_all add: thread_inv_def Let_def)
  have ft: "w_files w1 ! nat t = EdgesFile (w_file_prefix w1) t"
    using files tl t by simp
  have "EdgeWriter_write e b t (w1, fs1) =
     Inr (w1\<lparr>w_p_rec := (w_p_rec w1)[nat b :=
               (w_p_rec w1 ! nat b)\<lparr>thread_id := t,
                  starting_offset := w_cur_num_edges w1 ! nat t,
                  total_number := total_number (w_p_rec w1 ! nat b) + 1\<rparr>],
            w_cur_bucket := (w_cur_bucket w1)[nat t := b],
            w_cur_num_edges := (w_cur_num_edges w1)[nat t := w_cur_num_edges w1 ! nat t + 1]\<rparr>,
          fs1(w_files w1 ! nat t \<mapsto> Binary (concat (records_of (w_words_per_edge w1) (thread_ops t ops))
             @ take (nat (w_words_per_edge w1)) e)))"
    using t b tl bl ne un len files e r(2) fl ft
    by (intro write_claims) simp_all
  then show ?thesis
    using tl bl len tot0 cnt by simp
qed

text \<open>
  Claim C4. A call of \<open>write\<close> by thread \<open>tid\<close> for a bucket that is not its current one
  and is owned by another thread fails the assertion. After any history of calls that
  have returned, the first call for a bucket returns and claims the bucket: the owner is
  the calling thread, the starting offset is the thread's record count, which is the
  number of its earlier calls. A call by a thread for its current bucket returns, given
  an open file and a buffer of \<open>words_per_edge_\<close> words, and adds one to the thread's
  record count and to the bucket's total.
\<close>

theorem write_claims_bucket:
  "(0 \<le> tid \<and> tid < int (length (w_cur_bucket w)) \<and> 0 \<le> bucket
      \<and> bucket < int (length (w_p_rec w)) \<and> bucket \<noteq> w_cur_bucket w ! nat tid
      \<and> thread_id (w_p_rec w ! nat bucket) \<noteq> - 1 \<and> thread_id (w_p_rec w ! nat bucket) \<noteq> tid
      \<longrightarrow> EdgeWriter_write e bucket tid (w, fs) = Inl AssertionFailed)
   \<and> (closed_writer w0 \<and> EdgeWriter_init_files (w0, fs0) = Inr s0
       \<and> run_writes ops s0 = Inr (w1, fs1) \<and> bucket_ops b ops = []
       \<and> 0 \<le> t \<and> t < w_num_threads w0 \<and> 0 \<le> b \<and> b < w_num_buckets w0
       \<and> 0 \<le> w_words_per_edge w0 \<and> w_words_per_edge w0 \<le> int (length e1)
      \<longrightarrow>
       (\<exists>w2 fs2. EdgeWriter_write e1 b t (w1, fs1) = Inr (w2, fs2)
           \<and> thread_id (w_p_rec w2 ! nat b) = t
           \<and> starting_offset (w_p_rec w2 ! nat b) = w_cur_num_edges w1 ! nat t
           \<and> w_cur_num_edges w1 ! nat t = int (length (thread_ops t ops))
           \<and> total_number (w_p_rec w2 ! nat b) = 1
           \<and> w_cur_num_edges w2 ! nat t = w_cur_num_edges w1 ! nat t + 1
           \<and> w_cur_bucket w2 ! nat t = b))
   \<and> (0 \<le> tid \<and> tid < int (length (w_cur_bucket w)) \<and> 0 \<le> bucket
       \<and> bucket < int (length (w_p_rec w)) \<and> bucket = w_cur_bucket w ! nat tid
       \<and> tid < int (length (w_cur_num_edges w)) \<and> tid < int (length (w_files w))
       \<and> 0 \<le> w_words_per_edge w \<and> w_words_per_edge w \<le> int (length e)
       \<and> fs (w_files w ! nat tid) = Some (Binary ws)
      \<longrightarrow>
       EdgeWriter_write e bucket tid (w, fs) =
         Inr (w\<lparr>w_cur_num_edges :=
                  (w_cur_num_edges w)[nat tid := w_cur_num_edges w ! nat tid + 1],
                w_p_rec := (w_p_rec w)[nat bucket :=
                  (w_p_rec w ! nat bucket)\<lparr>total_number :=
                     total_number (w_p_rec w ! nat bucket) + 1\<rparr>]\<rparr>,
              fs(w_files w ! nat tid \<mapsto> Binary (ws @ take (nat (w_words_per_edge w)) e))))"
proof (intro conjI impI)
  assume "0 \<le> tid \<and> tid < int (length (w_cur_bucket w)) \<and> 0 \<le> bucket
      \<and> bucket < int (length (w_p_rec w)) \<and> bucket \<noteq> w_cur_bucket w ! nat tid
      \<and> thread_id (w_p_rec w ! nat bucket) \<noteq> - 1 \<and> thread_id (w_p_rec w ! nat bucket) \<noteq> tid"
  then show "EdgeWriter_write e bucket tid (w, fs) = Inl AssertionFailed"
    by (intro write_owned_elsewhere) simp_all
next
  assume "closed_writer w0 \<and> EdgeWriter_init_files (w0, fs0) = Inr s0
       \<and> run_writes ops s0 = Inr (w1, fs1) \<and> bucket_ops b ops = []
       \<and> 0 \<le> t \<and> t < w_num_threads w0 \<and> 0 \<le> b \<and> b < w_num_buckets w0
       \<and> 0 \<le> w_words_per_edge w0 \<and> w_words_per_edge w0 \<le> int (length e1)"
  then show "\<exists>w2 fs2. EdgeWriter_write e1 b t (w1, fs1) = Inr (w2, fs2)
           \<and> thread_id (w_p_rec w2 ! nat b) = t
           \<and> starting_offset (w_p_rec w2 ! nat b) = w_cur_num_edges w1 ! nat t
           \<and> w_cur_num_edges w1 ! nat t = int (length (thread_ops t ops))
           \<and> total_number (w_p_rec w2 ! nat b) = 1
           \<and> w_cur_num_edges w2 ! nat t = w_cur_num_edges w1 ! nat t + 1
           \<and> w_cur_bucket w2 ! nat t = b"
    by (intro first_write_claims [where ?w0.0 = w0 and ?fs0.0 = fs0 and ?s0.0 = s0]) simp_all
next
  assume "0 \<le> tid \<and> tid < int (length (w_cur_bucket w)) \<and> 0 \<le> bucket
       \<and> bucket < int (length (w_p_rec w)) \<and> bucket = w_cur_bucket w ! nat tid
       \<and> tid < int (length (w_cur_num_edges w)) \<and> tid < int (length (w_files w))
       \<and> 0 \<le> w_words_per_edge w \<and> w_words_per_edge w \<le> int (length e)
       \<and> fs (w_files w ! nat tid) = Some (Binary ws)"
  then show "EdgeWriter_write e bucket tid (w, fs) =
         Inr (w\<lparr>w_cur_num_edges :=
                  (w_cur_num_edges w)[nat tid := w_cur_num_edges w ! nat tid + 1],
                w_p_rec := (w_p_rec w)[nat bucket :=
                  (w_p_rec w ! nat bucket)\<lparr>total_number :=
                     total_number (w_p_rec w ! nat bucket) + 1\<rparr>]\<rparr>,
              fs(w_files w ! nat tid \<mapsto> Binary (ws @ take (nat (w_words_per_edge w)) e)))"
    by (intro write_current) simp_all
qed

theorem bucket_run_contiguous_witness:
  "closed_writer ex_sorted_writer
   \<and> (\<exists>s0 w1 fs1. EdgeWriter_init_files (ex_sorted_writer, Map.empty) = Inr s0
         \<and> run_writes ex_sorted_ops s0 = Inr (w1, fs1)
         \<and> w_cur_bucket w1 ! 0 = 1 \<and> thread_id (w_p_rec w1 ! 0) = 0
         \<and> EdgeWriter_write [9, 10] 0 0 (w1, fs1) = Inl AssertionFailed
         \<and> fs1 (EdgesFile ''p'' 0) = Some (Binary [1, 2, 3, 4, 7, 8])
         \<and> bucket_ops 0 ex_sorted_ops = take 2 (drop 0 (thread_ops 0 ex_sorted_ops))
         \<and> concat (records_of 2 (bucket_ops 0 ex_sorted_ops))
             = take 4 (drop 0 [1, 2, 3, 4, 7, 8]))"
proof -
  from ex_sorted_run obtain w1 fs1 where
    run: "run_writes ex_sorted_ops ex_sorted_opened = Inr (w1, fs1)"
    and st: "w_p_rec w1 = [\<lparr>thread_id = 0, starting_offset = 0, total_number = 2\<rparr>,
                     \<lparr>thread_id = 0, starting_offset = 2, total_number = 1\<rparr>,
                     \<lparr>thread_id = 1, starting_offset = 0, total_number = 1\<rparr>]"
      "w_cur_bucket w1 = [1, 2]"
    by blast
  have init: "EdgeWriter_init_files (ex_sorted_writer, Map.empty) = Inr ex_sorted_opened"
    unfolding ex_sorted_opened_def by (rule ex_sorted_init)
  have ev: "thread_ops 0 ex_sorted_ops = [([1, 2], 0, 0), ([3, 4], 0, 0), ([7, 8], 1, 0)]"
    "bucket_ops 0 ex_sorted_ops = [([1, 2], 0, 0), ([3, 4], 0, 0)]"
    by (simp_all add: bucket_ops_def thread_ops_def ex_sorted_ops_def)
  note th = bucket_run_contiguous [of 0 w1 0 "[9, 10]" fs1 ex_sorted_writer Map.empty
        ex_sorted_opened ex_sorted_ops w1 fs1 0]
  have h1: "0 \<le> (0::int) \<and> 0 < int (length (w_cur_bucket w1)) \<and> 0 \<le> (0::int)
      \<and> 0 < int (length (w_p_rec w1)) \<and> 0 \<noteq> w_cur_bucket w1 ! nat 0
      \<and> thread_id (w_p_rec w1 ! nat 0) \<noteq> - 1"
    by (simp add: st)
  have h2: "closed_writer ex_sorted_writer
       \<and> EdgeWriter_init_files (ex_sorted_writer, Map.empty) = Inr ex_sorted_opened
       \<and> run_writes ex_sorted_ops ex_sorted_opened = Inr (w1, fs1) \<and> 0 \<le> (0::int)
       \<and> 0 < w_num_buckets ex_sorted_writer"
    by (simp add: init run ex_sorted_closed)
  from th [THEN conjunct1, THEN mp, OF h1]
  have a: "EdgeWriter_write [9, 10] 0 0 (w1, fs1) = Inl AssertionFailed" .
  from th [THEN conjunct2, THEN mp, OF h2]
  have b: "fs1 (EdgesFile ''p'' 0) = Some (Binary [1, 2, 3, 4, 7, 8])"
    "bucket_ops 0 ex_sorted_ops = take 2 (drop 0 (thread_ops 0 ex_sorted_ops))"
    "concat (records_of 2 (bucket_ops 0 ex_sorted_ops)) = take 4 (drop 0 [1, 2, 3, 4, 7, 8])"
    by (simp_all add: Let_def st ex_sorted_closed ev records_of_def)
  have c: "w_cur_bucket w1 ! 0 = 1" "thread_id (w_p_rec w1 ! 0) = 0"
    by (simp_all add: st)
  from ex_sorted_closed(1) init run a b c show ?thesis by blast
qed

theorem write_claims_bucket_witness:
  "closed_writer ex_sorted_writer
   \<and> (\<exists>s0 w1 fs1 w2 fs2. EdgeWriter_init_files (ex_sorted_writer, Map.empty) = Inr s0
         \<and> run_writes ex_sorted_ops s0 = Inr (w1, fs1)
         \<and> thread_id (w_p_rec w1 ! 2) = 1 \<and> w_cur_bucket w1 ! 0 = 1
         \<and> EdgeWriter_write [9, 10] 2 0 (w1, fs1) = Inl AssertionFailed
         \<and> EdgeWriter_write [9, 10] 1 0 (w1, fs1) = Inr (w2, fs2)
         \<and> w_cur_num_edges w2 ! 0 = 4 \<and> total_number (w_p_rec w2 ! 1) = 2)
   \<and> (\<exists>s0 w1 fs1 w2 fs2. EdgeWriter_init_files (ex_sorted_writer, Map.empty) = Inr s0
         \<and> run_writes (take 2 ex_sorted_ops) s0 = Inr (w1, fs1)
         \<and> bucket_ops 1 (take 2 ex_sorted_ops) = []
         \<and> EdgeWriter_write [7, 8] 1 0 (w1, fs1) = Inr (w2, fs2)
         \<and> thread_id (w_p_rec w2 ! 1) = 0 \<and> starting_offset (w_p_rec w2 ! 1) = 2
         \<and> total_number (w_p_rec w2 ! 1) = 1)"
proof -
  from ex_sorted_run obtain w1 fs1 where
    run: "run_writes ex_sorted_ops ex_sorted_opened = Inr (w1, fs1)"
    and st: "w_p_rec w1 = [\<lparr>thread_id = 0, starting_offset = 0, total_number = 2\<rparr>,
                     \<lparr>thread_id = 0, starting_offset = 2, total_number = 1\<rparr>,
                     \<lparr>thread_id = 1, starting_offset = 0, total_number = 1\<rparr>]"
      "w_cur_bucket w1 = [1, 2]" "w_cur_num_edges w1 = [3, 1]"
      "w_files w1 = [EdgesFile ''p'' 0, EdgesFile ''p'' 1]" "w_words_per_edge w1 = 2"
      "fs1 (EdgesFile ''p'' 0) = Some (Binary [1, 2, 3, 4, 7, 8])"
    by blast
  from ex_sorted_run_prefix obtain v1 gs1 where
    run2: "run_writes (take 2 ex_sorted_ops) ex_sorted_opened = Inr (v1, gs1)"
    by blast
  have init: "EdgeWriter_init_files (ex_sorted_writer, Map.empty) = Inr ex_sorted_opened"
    unfolding ex_sorted_opened_def by (rule ex_sorted_init)
  have none: "bucket_ops 1 (take 2 ex_sorted_ops) = []"
    "int (length (thread_ops 0 (take 2 ex_sorted_ops))) = 2"
    by (simp_all add: bucket_ops_def thread_ops_def ex_sorted_ops_def)
  note th1 = write_claims_bucket [of 0 w1 2 "[9, 10]" fs1 ex_sorted_writer Map.empty
        ex_sorted_opened "take 2 ex_sorted_ops" v1 gs1 1 0 "[7, 8]"]
  note th2 = write_claims_bucket [of 0 w1 1 "[9, 10]" fs1 ex_sorted_writer Map.empty
        ex_sorted_opened "take 2 ex_sorted_ops" v1 gs1 1 0 "[7, 8]" "[1, 2, 3, 4, 7, 8]"]
  have h1: "0 \<le> (0::int) \<and> 0 < int (length (w_cur_bucket w1)) \<and> 0 \<le> (2::int)
      \<and> 2 < int (length (w_p_rec w1)) \<and> 2 \<noteq> w_cur_bucket w1 ! nat 0
      \<and> thread_id (w_p_rec w1 ! nat 2) \<noteq> - 1 \<and> thread_id (w_p_rec w1 ! nat 2) \<noteq> 0"
    by (simp add: st)
  have h2: "closed_writer ex_sorted_writer
       \<and> EdgeWriter_init_files (ex_sorted_writer, Map.empty) = Inr ex_sorted_opened
       \<and> run_writes (take 2 ex_sorted_ops) ex_sorted_opened = Inr (v1, gs1)
       \<and> bucket_ops 1 (take 2 ex_sorted_ops) = []
       \<and> 0 \<le> (0::int) \<and> 0 < w_num_threads ex_sorted_writer \<and> 0 \<le> (1::int)
       \<and> 1 < w_num_buckets ex_sorted_writer
       \<and> 0 \<le> w_words_per_edge ex_sorted_writer
       \<and> w_words_per_edge ex_sorted_writer \<le> int (length [7, 8 :: 32 word])"
    by (simp add: init run2 none ex_sorted_closed)
  have h3: "0 \<le> (0::int) \<and> 0 < int (length (w_cur_bucket w1)) \<and> 0 \<le> (1::int)
       \<and> 1 < int (length (w_p_rec w1)) \<and> 1 = w_cur_bucket w1 ! nat 0
       \<and> 0 < int (length (w_cur_num_edges w1)) \<and> 0 < int (length (w_files w1))
       \<and> 0 \<le> w_words_per_edge w1 \<and> w_words_per_edge w1 \<le> int (length [9, 10 :: 32 word])
       \<and> fs1 (w_files w1 ! nat 0) = Some (Binary [1, 2, 3, 4, 7, 8])"
    by (simp add: st)
  from th1 [THEN conjunct1, THEN mp, OF h1]
  have a: "EdgeWriter_write [9, 10] 2 0 (w1, fs1) = Inl AssertionFailed" .
  from th2 [THEN conjunct2, THEN conjunct2, THEN mp, OF h3]
  have b: "\<exists>w2 fs2. EdgeWriter_write [9, 10] 1 0 (w1, fs1) = Inr (w2, fs2)
         \<and> w_cur_num_edges w2 ! 0 = 4 \<and> total_number (w_p_rec w2 ! 1) = 2"
    by (simp add: st)
  from th1 [THEN conjunct2, THEN conjunct1, THEN mp, OF h2]
  have c: "\<exists>w2 fs2. EdgeWriter_write [7, 8] 1 0 (v1, gs1) = Inr (w2, fs2)
         \<and> thread_id (w_p_rec w2 ! 1) = 0 \<and> starting_offset (w_p_rec w2 ! 1) = 2
         \<and> total_number (w_p_rec w2 ! 1) = 1"
    using none(2) by auto
  have d: "thread_id (w_p_rec w1 ! 2) = 1" "w_cur_bucket w1 ! 0 = 1"
    by (simp_all add: st)
  from ex_sorted_closed(1) init run run2 none(1) a b c d show ?thesis by blast
qed

subsection \<open>Stores written in unsorted mode\<close>

lemma thread_edges_snoc:
  "thread_edges wpe t (ops @ [(e, t')]) =
     (if t' = t then thread_edges wpe t ops @ [take (nat wpe) e] else thread_edges wpe t ops)"
  by (simp add: thread_edges_def)

lemma write_unsorted_eq_Inr:
  "EdgeWriter_write_unsorted e tid (w, fs) = Inr s' \<longleftrightarrow>
     0 \<le> tid \<and> tid < int (length (w_files w)) \<and> tid < int (length (w_num_unsorted_edges w))
     \<and> 0 \<le> w_words_per_edge w \<and> w_words_per_edge w \<le> int (length e)
     \<and> (\<exists>ws. fs (w_files w ! nat tid) = Some (Binary ws)
          \<and> s' = (w\<lparr>w_num_unsorted_edges :=
                       (w_num_unsorted_edges w)[nat tid := w_num_unsorted_edges w ! nat tid + 1]\<rparr>,
                   fs(w_files w ! nat tid \<mapsto> Binary (ws @ take (nat (w_words_per_edge w)) e))))"
  unfolding EdgeWriter_write_unsorted_def prod.case bind_err_eq_Inr at_idx_eq_Inr fwrite_eq_Inr
  by auto

lemma unsorted_writer_inv_step:
  assumes inv: "unsorted_writer_inv ops (w, fs)"
    and wr: "EdgeWriter_write_unsorted e tid (w, fs) = Inr (w', fs')"
  shows "unsorted_writer_inv (ops @ [(e, tid)]) (w', fs')"
proof -
  let ?N = "length (w_num_unsorted_edges w)"
  from inv have files: "w_files w = map (\<lambda>i. EdgesFile (w_file_prefix w) (int i)) [0..<?N]"
    and TI: "\<And>t. t < ?N \<Longrightarrow>
        fs (EdgesFile (w_file_prefix w) (int t)) =
                Some (Binary (concat (thread_edges (w_words_per_edge w) (int t) ops)))
        \<and> w_num_unsorted_edges w ! t
                  = int (length (thread_edges (w_words_per_edge w) (int t) ops))"
    by (auto simp: unsorted_writer_inv_def)
  from wr obtain ws where c: "0 \<le> tid" "tid < int ?N"
    "fs (w_files w ! nat tid) = Some (Binary ws)"
    and w': "w' = w\<lparr>w_num_unsorted_edges :=
                       (w_num_unsorted_edges w)[nat tid := w_num_unsorted_edges w ! nat tid + 1]\<rparr>"
    and fs': "fs' = fs(w_files w ! nat tid \<mapsto> Binary (ws @ take (nat (w_words_per_edge w)) e))"
    unfolding write_unsorted_eq_Inr by auto
  have tN: "nat tid < ?N" using c by simp
  have fT: "w_files w ! nat tid = EdgesFile (w_file_prefix w) tid"
    using tN c(1) by (subst files) simp
  have ws: "ws = concat (thread_edges (w_words_per_edge w) tid ops)"
    using TI [of "nat tid"] c fT by simp
  show ?thesis
    unfolding unsorted_writer_inv_def prod.case
  proof (intro conjI allI impI)
    show "w_files w' = map (\<lambda>i. EdgesFile (w_file_prefix w') (int i))
                      [0..<length (w_num_unsorted_edges w')]"
      using files by (simp add: w')
  next
    fix t assume "t < length (w_num_unsorted_edges w')"
    then have t: "t < ?N" by (simp add: w')
    show "fs' (EdgesFile (w_file_prefix w') (int t)) =
           Some (Binary (concat (thread_edges (w_words_per_edge w') (int t) (ops @ [(e, tid)]))))"
      using TI [OF t] c t ws by (auto simp: w' fs' fT thread_edges_snoc)
    show "w_num_unsorted_edges w' ! t =
           int (length (thread_edges (w_words_per_edge w') (int t) (ops @ [(e, tid)])))"
      using TI [OF t] c t by (auto simp: w' thread_edges_snoc nth_list_update)
  qed
qed

lemma write_unsorted_frame:
  assumes "EdgeWriter_write_unsorted e tid (w, fs) = Inr (w', fs')"
  shows "w'\<lparr>w_num_unsorted_edges := x\<rparr> = w\<lparr>w_num_unsorted_edges := x\<rparr>"
    and "length (w_num_unsorted_edges w') = length (w_num_unsorted_edges w)"
  using assms unfolding write_unsorted_eq_Inr by auto

lemma run_unsorted_inv:
  "unsorted_writer_inv pre s \<Longrightarrow> run_unsorted ops s = Inr s' \<Longrightarrow>
   unsorted_writer_inv (pre @ ops) s'"
proof (induction ops arbitrary: pre s)
  case Nil
  then show ?case by simp
next
  case (Cons op ops)
  obtain e t where op: "op = (e, t)" by (cases op)
  from Cons.prems(2) obtain s1 where s1: "EdgeWriter_write_unsorted e t s = Inr s1"
    and rest: "run_unsorted ops s1 = Inr s'"
    by (auto simp: op bind_err_eq_Inr)
  have "unsorted_writer_inv (pre @ [(e, t)]) s1"
    using unsorted_writer_inv_step [of pre "fst s" "snd s" e t "fst s1" "snd s1"]
      Cons.prems(1) s1
    by simp
  from Cons.IH [OF this rest] show ?case by (simp add: op)
qed

lemma run_unsorted_frame:
  "run_unsorted ops (w, fs) = Inr (w', fs') \<Longrightarrow>
   w'\<lparr>w_num_unsorted_edges := x\<rparr> = w\<lparr>w_num_unsorted_edges := x\<rparr>
   \<and> length (w_num_unsorted_edges w') = length (w_num_unsorted_edges w)"
proof (induction ops arbitrary: w fs)
  case Nil
  then show ?case by simp
next
  case (Cons op ops)
  obtain e t where op: "op = (e, t)" by (cases op)
  from Cons.prems obtain w1 fs1 where s1: "EdgeWriter_write_unsorted e t (w, fs) = Inr (w1, fs1)"
    and rest: "run_unsorted ops (w1, fs1) = Inr (w', fs')"
    by (auto simp: op bind_err_eq_Inr)
  from write_unsorted_frame(1) [OF s1, of x] write_unsorted_frame(2) [OF s1]
    Cons.IH [OF rest] show ?case
    by simp
qed

lemma unsorted_opened:
  assumes cw: "closed_writer w0" and su: "set_unsorted w0 = Inr w1"
    and init: "EdgeWriter_init_files (w1, fs0) = Inr (w, fs)"
  shows "0 \<le> w_num_threads w0"
    and "w = w0\<lparr>w_num_buckets := 0, w_unsorted := True,
             w_num_unsorted_edges := replicate (nat (w_num_threads w0)) 0,
             w_files := map (\<lambda>i. EdgesFile (w_file_prefix w0) (int i)) [0..<nat (w_num_threads w0)],
             w_cur_bucket := replicate (nat (w_num_threads w0)) (- 1),
             w_cur_num_edges := replicate (nat (w_num_threads w0)) 0,
             w_is_opened := True\<rparr>"
    and "fs = open_edge_files (w_file_prefix w0) (nat (w_num_threads w0)) fs0"
    and "unsorted_writer_inv [] (w, fs)"
proof -
  from su have n: "0 \<le> w_num_threads w0"
    and w1: "w1 = w0\<lparr>w_num_buckets := 0, w_p_rec := [], w_unsorted := True,
                  w_num_unsorted_edges := replicate (nat (w_num_threads w0)) 0\<rparr>"
    by (auto simp: set_unsorted_def resize_def split: if_splits)
  have cw1: "closed_writer w1" using cw by (simp add: closed_writer_def w1)
  note r = init_files_result [OF cw1 init]
  show "0 \<le> w_num_threads w0" by (rule n)
  show w: "w = w0\<lparr>w_num_buckets := 0, w_unsorted := True,
             w_num_unsorted_edges := replicate (nat (w_num_threads w0)) 0,
             w_files := map (\<lambda>i. EdgesFile (w_file_prefix w0) (int i)) [0..<nat (w_num_threads w0)],
             w_cur_bucket := replicate (nat (w_num_threads w0)) (- 1),
             w_cur_num_edges := replicate (nat (w_num_threads w0)) 0,
             w_is_opened := True\<rparr>"
    using cw unfolding r(3) by (simp add: w1 closed_writer_def)
  show fs: "fs = open_edge_files (w_file_prefix w0) (nat (w_num_threads w0)) fs0"
    unfolding r(4) by (simp add: w1)
  show "unsorted_writer_inv [] (w, fs)"
    unfolding unsorted_writer_inv_def prod.case w fs
    by (simp add: thread_edges_def open_edge_files_apply)
qed

lemma read_file_rows_tokens:
  "length cs = n \<Longrightarrow> i + n \<le> length fsz \<Longrightarrow>
   read_file_rows n i (concat (map (\<lambda>(i, c). [Num (int i), Num c]) (enumerate i cs)) @ rest) fsz
     = Inr (rest, take i fsz @ cs @ drop (i + n) fsz)"
proof (induction cs arbitrary: n i fsz)
  case Nil
  then show ?case by simp
next
  case (Cons c cs)
  then obtain m where n: "n = Suc m" and m: "length cs = m" by (cases n) auto
  have len: "Suc i + m \<le> length (fsz[i := c])" using Cons.prems n by simp
  have "take (Suc i) (fsz[i := c]) = take i fsz @ [c]"
    using Cons.prems n by (simp add: take_Suc_conv_app_nth)
  with Cons.IH [OF m len] show ?case
    by (simp add: n)
qed

lemma read_info_unsorted:
  assumes "fs (EdgesInfo (r_file_prefix r)) =
      Some (Text ([Lit ''kmer_size'', Num k, Lit ''words_per_edge'', Num wpe,
                   Lit ''num_threads'', Num (int (length cs)), Lit ''num_bucket'', Num 0,
                   Lit ''num_edges'', Num ne]
                  @ concat (map (\<lambda>(i, c). [Num (int i), Num c]) (enumerate 0 cs))))"
    and "r_file_sizes r = []"
  shows "read_info r fs =
     Inr (r\<lparr>r_kmer_size := k, r_words_per_edge := wpe, r_num_files := int (length cs),
            r_num_buckets := 0, r_num_edges := ne,
            r_p_rec := [], r_file_sizes := cs\<rparr>)"
proof -
  have "read_file_rows (length cs) 0
          (concat (map (\<lambda>(i, c). [Num (int i), Num c]) (enumerate 0 cs)) @ [])
          (replicate (length cs) 0) = Inr ([], take 0 (replicate (length cs) 0) @ cs
             @ drop (0 + length cs) (replicate (length cs) 0))"
    by (intro read_file_rows_tokens) simp_all
  then show ?thesis
    using assms by (simp add: read_info_def resize_def)
qed

subsection \<open>Reading in unsorted mode\<close>

lemma unsorted_advance_spec:
  "unsorted_reader_inv recs r \<Longrightarrow> r_cur_file_num r < r_num_files r \<Longrightarrow>
   \<exists>b r'. unsorted_advance r = Inr (b, r') \<and> unsorted_reader_inv recs r'
     \<and> unsorted_pending recs r' = unsorted_pending recs r
     \<and> r_words_per_edge r' = r_words_per_edge r \<and> r_mmaps r' = r_mmaps r
     \<and> (b \<longrightarrow> r_num_files r' \<le> r_cur_file_num r')
     \<and> (\<not> b \<longrightarrow> r_cur_file_num r' < r_num_files r' \<and> 0 \<le> r_cur_file_num r'
              \<and> r_cur_cnt r' < r_cur_vol r')"
proof (induction "nat (r_num_files r - r_cur_file_num r)" arbitrary: r rule: less_induct)
  case less
  note inv = less.prems(1) and lt = less.prems(2)
  from inv lt have pos: "- 1 \<le> r_cur_file_num r" "0 \<le> r_cur_cnt r" "r_cur_cnt r \<le> r_cur_vol r"
    "r_cur_vol r = int (length (cur_run recs r))"
    and nf: "r_num_files r = int (length recs)"
    by (simp_all add: unsorted_reader_inv_def)
  show ?case
  proof (cases "r_cur_vol r \<le> r_cur_cnt r")
    case False
    then have "unsorted_advance r = Inr (False, r)"
      by (simp add: unsorted_advance.simps [of r])
    moreover have "0 \<le> r_cur_file_num r"
      using pos False by (auto simp: cur_run_def split: if_splits)
    ultimately show ?thesis using inv lt False by auto
  next
    case True
    let ?f = "r_cur_file_num r + 1"
    have done_run: "drop (nat (r_cur_cnt r)) (cur_run recs r) = []"
      using True pos by simp
    show ?thesis
    proof (cases "r_num_files r \<le> ?f")
      case True
      have adv: "unsorted_advance r = Inr (True, r\<lparr>r_cur_file_num := ?f\<rparr>)"
        using \<open>r_cur_vol r \<le> r_cur_cnt r\<close> True
        by (simp add: unsorted_advance.simps [of r] Let_def)
      have "unsorted_pending recs r = []"
        using True lt nf done_run by (simp add: unsorted_pending_def)
      moreover have "unsorted_pending recs (r\<lparr>r_cur_file_num := ?f\<rparr>) = []"
        using True by (simp add: unsorted_pending_def)
      moreover have "unsorted_reader_inv recs (r\<lparr>r_cur_file_num := ?f\<rparr>)"
        using inv True by (simp add: unsorted_reader_inv_def)
      ultimately show ?thesis using adv True by auto
    next
      case False
      define r1 where "r1 = r\<lparr>r_cur_file_num := ?f, r_cur_ptr := (?f, 0), r_cur_cnt := 0,
                          r_cur_vol := r_file_sizes r ! nat ?f\<rparr>"
      have f: "0 \<le> ?f" "nat ?f < length recs" "?f < int (length recs)"
        using pos False nf by simp_all
      have lens: "length (r_mmaps r) = length recs" "length (r_file_sizes r) = length recs"
        using inv by (simp_all add: unsorted_reader_inv_def)
      have adv: "unsorted_advance r = unsorted_advance r1"
        using \<open>r_cur_vol r \<le> r_cur_cnt r\<close> False f lens
        by (simp add: unsorted_advance.simps [of r] Let_def at_idx_def r1_def)
      have sz: "r_file_sizes r ! nat ?f = int (length (recs ! nat ?f))"
        using inv f by (simp add: unsorted_reader_inv_def)
      have inv1: "unsorted_reader_inv recs r1"
        using inv f sz by (simp add: unsorted_reader_inv_def r1_def cur_run_def)
      have lt1: "r_cur_file_num r1 < r_num_files r1"
        using False by (simp add: r1_def)
      have "nat (?f + 1) = Suc (nat ?f)" using f by simp
      then have "unsorted_pending recs r1 = concat (drop (nat ?f) recs)"
        using False f by (simp add: unsorted_pending_def r1_def cur_run_def
            Cons_nth_drop_Suc [symmetric])
      then have pend1: "unsorted_pending recs r1 = unsorted_pending recs r"
        using lt done_run by (simp add: unsorted_pending_def)
      have "nat (r_num_files r1 - r_cur_file_num r1) < nat (r_num_files r - r_cur_file_num r)"
        using lt by (simp add: r1_def)
      from less.hyps [OF this inv1 lt1] obtain b r' where
        "unsorted_advance r1 = Inr (b, r')" "unsorted_reader_inv recs r'"
        "unsorted_pending recs r' = unsorted_pending recs r1"
        "r_words_per_edge r' = r_words_per_edge r1" "r_mmaps r' = r_mmaps r1"
        "b \<longrightarrow> r_num_files r' \<le> r_cur_file_num r'"
        "\<not> b \<longrightarrow> r_cur_file_num r' < r_num_files r' \<and> 0 \<le> r_cur_file_num r'
              \<and> r_cur_cnt r' < r_cur_vol r'"
        by blast
      then show ?thesis
        using adv pend1 by (auto simp: r1_def)
    qed
  qed
qed

lemma length_concat_uniform:
  "\<forall>r\<in>set rs. length r = n \<Longrightarrow> length (concat rs) = length rs * n"
  by (induction rs) simp_all

lemma concat_nth_uniform:
  assumes "\<forall>r\<in>set rs. length r = n" and "j < length rs"
  shows "take n (drop (j * n) (concat rs)) = rs ! j"
proof -
  have "drop (j * n) (concat rs) = rs ! j @ concat (drop (Suc j) rs)"
    using assms by (simp add: concat_drop_uniform Cons_nth_drop_Suc [symmetric])
  moreover have "length (rs ! j) = n" using assms by simp
  ultimately show ?thesis by simp
qed

lemma NextUnsortedEdge_spec:
  assumes inv: "unsorted_reader_inv recs r"
  shows "\<exists>p r'. NextUnsortedEdge r = Inr (p, r') \<and> unsorted_reader_inv recs r'
     \<and> (case unsorted_pending recs r of
           [] \<Rightarrow> p = None \<and> unsorted_pending recs r' = []
         | x # xs \<Rightarrow> \<exists>q. p = Some q \<and> edge_at r' q = Inr x \<and> unsorted_pending recs r' = xs)"
proof (cases "r_num_files r \<le> r_cur_file_num r")
  case True
  then have "NextUnsortedEdge r = Inr (None, r)" by (simp add: NextUnsortedEdge_def)
  moreover have "unsorted_pending recs r = []" using True by (simp add: unsorted_pending_def)
  ultimately show ?thesis using inv by simp
next
  case False
  then have lt: "r_cur_file_num r < r_num_files r" by simp
  from unsorted_advance_spec [OF inv lt] obtain b r1 where
    adv: "unsorted_advance r = Inr (b, r1)" and inv1: "unsorted_reader_inv recs r1"
    and pend: "unsorted_pending recs r1 = unsorted_pending recs r"
    and ex: "b \<longrightarrow> r_num_files r1 \<le> r_cur_file_num r1"
    and more: "\<not> b \<longrightarrow> r_cur_file_num r1 < r_num_files r1 \<and> 0 \<le> r_cur_file_num r1
              \<and> r_cur_cnt r1 < r_cur_vol r1"
    by blast
  show ?thesis
  proof (cases b)
    case True
    then have "NextUnsortedEdge r = Inr (None, r1)"
      using False adv by (simp add: NextUnsortedEdge_def)
    moreover have "unsorted_pending recs r = []"
      using True ex pend by (simp add: unsorted_pending_def)
    ultimately show ?thesis using inv1 pend by simp
  next
    case nb: False
    let ?wpe = "r_words_per_edge r1"
    let ?f = "r_cur_file_num r1"
    let ?run = "recs ! nat ?f"
    let ?c = "nat (r_cur_cnt r1)"
    define r2 where "r2 = r1\<lparr>r_cur_cnt := r_cur_cnt r1 + 1,
        r_cur_ptr := (fst (r_cur_ptr r1), snd (r_cur_ptr r1) + ?wpe)\<rparr>"
    from nb more have f: "?f < r_num_files r1" "0 \<le> ?f" and cv: "r_cur_cnt r1 < r_cur_vol r1"
      by simp_all
    from inv1 f have nf: "r_num_files r1 = int (length recs)"
      and fl: "nat ?f < length recs"
      and c0: "0 \<le> r_cur_cnt r1" and vol: "r_cur_vol r1 = int (length ?run)"
      and ptr: "r_cur_ptr r1 = (?f, r_cur_cnt r1 * ?wpe)"
      by (simp_all add: unsorted_reader_inv_def cur_run_def)
    from inv1 fl have mm: "r_mmaps r1 ! nat ?f = concat ?run"
      and uni: "\<forall>e\<in>set ?run. length e = nat ?wpe" and wp: "\<forall>e\<in>set ?run. 0 \<le> ?wpe"
      and lm: "length (r_mmaps r1) = length recs"
      by (simp_all add: unsorted_reader_inv_def)
    have cl: "?c < length ?run" using cv c0 vol by simp
    then have "?run ! ?c \<in> set ?run" by simp
    with wp have wpe0: "0 \<le> ?wpe" by blast
    have nxt: "NextUnsortedEdge r = Inr (Some (r_cur_ptr r1), r2)"
      using False adv nb by (simp add: NextUnsortedEdge_def r2_def)
    have off: "nat (r_cur_cnt r1 * ?wpe) = ?c * nat ?wpe"
      using c0 wpe0 by (simp add: nat_mult_distrib)
    have lc: "int (length (concat ?run)) = int (length ?run) * ?wpe"
      using length_concat_uniform [OF uni] wpe0 by simp
    have "(r_cur_cnt r1 + 1) * ?wpe \<le> int (length ?run) * ?wpe"
      using cv vol wpe0 by (intro mult_right_mono) simp_all
    then have bound: "r_cur_cnt r1 * ?wpe + ?wpe \<le> int (length (concat ?run))"
      unfolding lc by (simp add: algebra_simps)
    have edge: "edge_at r2 (r_cur_ptr r1) = Inr (?run ! ?c)"
      using f fl lm mm c0 wpe0 bound concat_nth_uniform [OF uni cl]
      by (simp add: edge_at_def ptr r2_def at_idx_def off)
    have inv2: "unsorted_reader_inv recs r2"
      using inv1 f cv by (simp add: unsorted_reader_inv_def r2_def cur_run_def ptr algebra_simps)
    have "nat (r_cur_cnt r1 + 1) = Suc ?c" using c0 by simp
    then have p2: "unsorted_pending recs r2 =
        drop (Suc ?c) ?run @ concat (drop (nat (?f + 1)) recs)"
      using f by (simp add: unsorted_pending_def r2_def cur_run_def)
    have p1: "unsorted_pending recs r =
        ?run ! ?c # drop (Suc ?c) ?run @ concat (drop (nat (?f + 1)) recs)"
      using f cl unfolding pend [symmetric]
      by (simp add: unsorted_pending_def cur_run_def Cons_nth_drop_Suc)
    show ?thesis
      using nxt inv2 edge p1 p2 by (cases "r_cur_ptr r1") auto
  qed
qed

lemma pull_unsorted_spec:
  "unsorted_reader_inv recs r \<Longrightarrow>
   \<exists>r'. pull_edges NextUnsortedEdge n r =
     Inr (map Some (take n (unsorted_pending recs r))
          @ replicate (n - length (unsorted_pending recs r)) None, r')"
proof (induction n arbitrary: r)
  case 0
  then show ?case by simp
next
  case (Suc n)
  from NextUnsortedEdge_spec [OF Suc.prems] obtain p r1 where
    nxt: "NextUnsortedEdge r = Inr (p, r1)" and inv1: "unsorted_reader_inv recs r1"
    and c: "case unsorted_pending recs r of
           [] \<Rightarrow> p = None \<and> unsorted_pending recs r1 = []
         | x # xs \<Rightarrow> \<exists>q. p = Some q \<and> edge_at r1 q = Inr x \<and> unsorted_pending recs r1 = xs"
    by blast
  from Suc.IH [OF inv1] obtain r' where
    rest: "pull_edges NextUnsortedEdge n r1 =
     Inr (map Some (take n (unsorted_pending recs r1))
          @ replicate (n - length (unsorted_pending recs r1)) None, r')"
    by blast
  show ?case
  proof (cases "unsorted_pending recs r")
    case Nil
    with c nxt rest show ?thesis by (simp add: replicate_append_same)
  next
    case (Cons x xs)
    with c obtain q where "p = Some q" "edge_at r1 q = Inr x" "unsorted_pending recs r1 = xs"
      by auto
    with nxt rest Cons show ?thesis by simp
  qed
qed

subsection \<open>The round trip in unsorted mode\<close>

lemma map_edge_files_all:
  "(\<And>j. i \<le> j \<Longrightarrow> j < i + n \<Longrightarrow> fs (EdgesFile prefix (int j)) = Some (Binary (content j))) \<Longrightarrow>
   i + n \<le> length fsz \<Longrightarrow>
   map_edge_files prefix wpe fsz fs n i =
     Inr (map (\<lambda>j. take (nat (fsz ! j * wpe)) (content j)) [i..<i + n])"
proof (induction n arbitrary: i)
  case 0
  then show ?case by simp
next
  case (Suc n)
  have "map_edge_files prefix wpe fsz fs n (Suc i) =
     Inr (map (\<lambda>j. take (nat (fsz ! j * wpe)) (content j)) [Suc i..<Suc i + n])"
    using Suc.prems by (intro Suc.IH) simp_all
  moreover have "fs (EdgesFile prefix (int i)) = Some (Binary (content i))"
    using Suc.prems by simp
  moreover have "[i..<i + Suc n] = i # [Suc i..<Suc i + n]"
    by (simp add: upt_conv_Cons)
  ultimately show ?case
    using Suc.prems(2) by (simp add: at_idx_def del: upt_Suc)
qed

lemma run_unsorted_ops_ok:
  "run_unsorted ops (w, fs) = Inr s' \<Longrightarrow> (e, t) \<in> set ops \<Longrightarrow>
   0 \<le> w_words_per_edge w \<and> w_words_per_edge w \<le> int (length e)
   \<and> 0 \<le> t \<and> t < int (length (w_num_unsorted_edges w))"
proof (induction ops arbitrary: w fs)
  case Nil
  then show ?case by simp
next
  case (Cons op ops)
  obtain e1 t1 where op: "op = (e1, t1)" by (cases op)
  from Cons.prems(1) obtain w1 fs1 where s1: "EdgeWriter_write_unsorted e1 t1 (w, fs) = Inr (w1, fs1)"
    and rest: "run_unsorted ops (w1, fs1) = Inr s'"
    by (auto simp: op bind_err_eq_Inr)
  show ?case
  proof (cases "(e, t) = op")
    case True
    with s1 op show ?thesis by (auto simp: write_unsorted_eq_Inr)
  next
    case False
    with Cons.prems(2) have "(e, t) \<in> set ops" by simp
    from Cons.IH [OF rest this] s1 show ?thesis
      by (auto simp: write_unsorted_eq_Inr)
  qed
qed

lemma thread_edges_uniform:
  assumes "\<forall>(e, t)\<in>set ops. 0 \<le> wpe \<and> wpe \<le> int (length e)"
  shows "\<forall>r\<in>set (thread_edges wpe t ops). length r = nat wpe \<and> 0 \<le> wpe"
  using assms by (auto simp: thread_edges_def)

lemma unsorted_store_read:
  assumes cw: "closed_writer w0" and su: "set_unsorted w0 = Inr w1"
    and init: "EdgeWriter_init_files (w1, fs0) = Inr s1"
    and run: "run_unsorted ops s1 = Inr s2"
  shows "\<exists>w3 fs3 r2 r3. EdgeWriter_destroy s2 = Inr (w3, fs3)
      \<and> read_info (reader_set_file_prefix (w_file_prefix w0) (EdgeReader_new r0)) fs3 = Inr r2
      \<and> EdgeReader_init_files r2 fs3 = Inr r3 \<and> is_unsorted r3
      \<and> r_kmer_size r3 = w_kmer_size w0 \<and> r_words_per_edge r3 = w_words_per_edge w0
      \<and> unsorted_reader_inv (stored_edges (w_words_per_edge w0) (nat (w_num_threads w0)) ops) r3
      \<and> unsorted_pending (stored_edges (w_words_per_edge w0) (nat (w_num_threads w0)) ops) r3
          = concat (stored_edges (w_words_per_edge w0) (nat (w_num_threads w0)) ops)"
proof -
  let ?N = "nat (w_num_threads w0)"
  let ?wpe = "w_words_per_edge w0"
  let ?p = "w_file_prefix w0"
  let ?recs = "stored_edges ?wpe ?N ops"
  obtain w fs where s1: "s1 = (w, fs)" by (cases s1)
  obtain w2 fs2 where s2: "s2 = (w2, fs2)" by (cases s2)
  note o = unsorted_opened [OF cw su init [unfolded s1]]
  have winv: "unsorted_writer_inv ops (w2, fs2)"
    using run_unsorted_inv [OF o(4) run [unfolded s1 s2]] by simp
  note fr = run_unsorted_frame [OF run [unfolded s1 s2]]
  have w2: "w2 = w\<lparr>w_num_unsorted_edges := w_num_unsorted_edges w2\<rparr>"
    using fr [of "w_num_unsorted_edges w2"] by simp
  have len: "length (w_num_unsorted_edges w2) = ?N"
    using fr [of "[]"] by (simp add: o(2))
  have fields: "w_is_opened w2" "w_num_threads w2 = w_num_threads w0" "w_unsorted w2"
    "w_num_buckets w2 = 0" "w_p_rec w2 = []" "w_file_prefix w2 = ?p"
    "w_words_per_edge w2 = ?wpe" "w_kmer_size w2 = w_kmer_size w0" "length (w_files w2) = ?N"
    using cw by (subst w2, simp add: o(2) closed_writer_def)+
  define ne where "ne = sum_list (w_num_unsorted_edges w2)"
  define fs3 where "fs3 = fs2(EdgesInfo ?p \<mapsto> Text (info_tokens w2 ne))"
  define w3 where "w3 = w2\<lparr>w_files := [], w_cur_bucket := [], w_cur_num_edges := [],
      w_p_rec := [], w_is_opened := False\<rparr>"
  have destroy: "EdgeWriter_destroy s2 = Inr (w3, fs3)"
    unfolding s2 using fields o(1) by (simp add: EdgeWriter_destroy_opened w3_def fs3_def ne_def)
  have toks: "info_tokens w2 ne =
      [Lit ''kmer_size'', Num (w_kmer_size w0), Lit ''words_per_edge'', Num ?wpe,
       Lit ''num_threads'', Num (int (length (w_num_unsorted_edges w2))), Lit ''num_bucket'', Num 0,
       Lit ''num_edges'', Num ne]
      @ concat (map (\<lambda>(i, c). [Num (int i), Num c]) (enumerate 0 (w_num_unsorted_edges w2)))"
    using o(1) by (simp add: info_tokens_def fields len)
  define r1 where "r1 = reader_set_file_prefix ?p (EdgeReader_new r0)"
  define r2 where "r2 = r1\<lparr>r_kmer_size := w_kmer_size w0, r_words_per_edge := ?wpe,
            r_num_files := int (length (w_num_unsorted_edges w2)),
            r_num_buckets := 0, r_num_edges := ne,
            r_p_rec := [], r_file_sizes := w_num_unsorted_edges w2\<rparr>"
  have r1: "r_file_prefix r1 = ?p" "r_file_sizes r1 = []" "\<not> r_is_opened r1"
    by (simp_all add: r1_def reader_set_file_prefix_def EdgeReader_new_def)
  have info: "read_info r1 fs3 = Inr r2"
    unfolding r2_def
    by (rule read_info_unsorted) (simp_all add: r1 fs3_def toks)
  from winv have files: "\<And>t. t < ?N \<Longrightarrow>
       fs2 (EdgesFile ?p (int t)) = Some (Binary (concat (thread_edges ?wpe (int t) ops)))"
    and cnts: "\<And>t. t < ?N \<Longrightarrow>
       w_num_unsorted_edges w2 ! t = int (length (thread_edges ?wpe (int t) ops))"
    by (simp_all add: unsorted_writer_inv_def len fields)
  have ok: "\<forall>(e, t)\<in>set ops. 0 \<le> ?wpe \<and> ?wpe \<le> int (length e)"
    using run_unsorted_ops_ok [OF run [unfolded s1]] by (auto simp: o(2))
  note uni = thread_edges_uniform [OF ok]
  have whole: "take (nat (w_num_unsorted_edges w2 ! t * ?wpe)) (concat (thread_edges ?wpe (int t) ops))
      = concat (thread_edges ?wpe (int t) ops)" if "t < ?N" for t
  proof (cases "thread_edges ?wpe (int t) ops = []")
    case True
    then show ?thesis by simp
  next
    case False
    then obtain x where "x \<in> set (thread_edges ?wpe (int t) ops)" by (cases "thread_edges ?wpe (int t) ops") auto
    with uni have "0 \<le> ?wpe" by blast
    moreover have "length (concat (thread_edges ?wpe (int t) ops))
        = length (thread_edges ?wpe (int t) ops) * nat ?wpe"
      using uni by (intro length_concat_uniform) blast
    ultimately show ?thesis
      using cnts [OF that] by (simp add: nat_mult_distrib)
  qed
  have "map_edge_files ?p ?wpe (w_num_unsorted_edges w2) fs3 ?N 0 =
     Inr (map (\<lambda>j. take (nat (w_num_unsorted_edges w2 ! j * ?wpe))
                  (concat (thread_edges ?wpe (int j) ops))) [0..<0 + ?N])"
    using files len by (intro map_edge_files_all) (simp_all add: fs3_def)
  then have maps: "map_edge_files ?p ?wpe (w_num_unsorted_edges w2) fs3 ?N 0 =
     Inr (map (\<lambda>j. concat (thread_edges ?wpe (int j) ops)) [0..<?N])"
    using whole by simp
  define r3 where "r3 = r2\<lparr>r_fds := map (\<lambda>i. EdgesFile ?p (int i)) [0..<?N],
      r_mmaps := map (\<lambda>j. concat (thread_edges ?wpe (int j) ops)) [0..<?N],
      r_cur_cnt := 0, r_cur_vol := 0, r_cur_bucket := - 1, r_cur_file_num := - 1,
      r_is_opened := True\<rparr>"
  have init3: "EdgeReader_init_files r2 fs3 = Inr r3"
    using maps r1 len by (simp add: EdgeReader_init_files_def r2_def r3_def is_unsorted_def)
  have uns: "is_unsorted r3" by (simp add: is_unsorted_def r3_def r2_def)
  have rinv: "unsorted_reader_inv ?recs r3"
    using uni cnts len
    by (simp add: unsorted_reader_inv_def stored_edges_def r3_def r2_def cur_run_def)
  have pend: "unsorted_pending ?recs r3 = concat ?recs"
    by (simp add: unsorted_pending_def r3_def r2_def cur_run_def stored_edges_def len)
  show ?thesis
    using destroy info [unfolded r1_def] init3 uns rinv pend
    by (intro exI [of _ w3] exI [of _ fs3] exI [of _ r2] exI [of _ r3])
       (simp add: r3_def r2_def)
qed

lemma three_edges_written:
  assumes cw: "closed_writer w0" and wpe: "w_words_per_edge w0 = 2"
    and n: "w_num_threads w0 = 2"
    and len: "length e1 = 2" "length e2 = 2" "length e3 = 2"
  shows "\<exists>w1 s1 s2. set_unsorted w0 = Inr w1 \<and> EdgeWriter_init_files (w1, fs0) = Inr s1
     \<and> run_unsorted [(e1, 0), (e2, 0), (e3, 1)] s1 = Inr s2"
proof -
  define w1 where "w1 = w0\<lparr>w_num_buckets := 0, w_p_rec := [], w_unsorted := True,
                  w_num_unsorted_edges := [0, 0]\<rparr>"
  have su: "set_unsorted w0 = Inr w1"
    using n by (simp add: set_unsorted_def w1_def resize_def numeral_2_eq_2)
  obtain s1 where init: "EdgeWriter_init_files (w1, fs0) = Inr s1"
    using cw n by (simp add: EdgeWriter_init_files_def w1_def closed_writer_def Let_def)
  obtain w fs where s1: "s1 = (w, fs)" by (cases s1)
  note o = unsorted_opened [OF cw su init [unfolded s1]]
  have "\<exists>s2. run_unsorted [(e1, 0), (e2, 0), (e3, 1)] (w, fs) = Inr s2"
    unfolding o(2,3)
    by (simp add: n wpe len EdgeWriter_write_unsorted_def at_idx_def fwrite_def
        open_edge_files_def upt_rec numeral_2_eq_2)
  with su init s1 show ?thesis by blast
qed

text \<open>
  Claim C2. A store is written in unsorted mode: a closed writer is switched to unsorted
  mode and opened, a history of calls of \<open>write_unsorted\<close> returns, and \<open>destroy()\<close> closes
  the store. Then a new reader parses the metadata file and maps the files, and its
  \<open>n\<close> first calls of \<open>NextUnsortedEdge()\<close> return the records of file 0 in the order they
  were written, then those of file 1, and so on, and the null pointer from then on. In
  particular, with two threads and two words per record, writing \<open>e1\<close> and \<open>e2\<close> from
  thread 0 and \<open>e3\<close> from thread 1 makes four calls return \<open>e1\<close>, \<open>e2\<close>, \<open>e3\<close> and the
  null pointer.
\<close>

theorem unsorted_round_trip:
  "(closed_writer w0 \<and> set_unsorted w0 = Inr w1 \<and> EdgeWriter_init_files (w1, fs0) = Inr s1
      \<and> run_unsorted ops s1 = Inr s2
     \<longrightarrow>
      (\<exists>w3 fs3 r2 r3. EdgeWriter_destroy s2 = Inr (w3, fs3)
         \<and> read_info (reader_set_file_prefix (w_file_prefix w0) (EdgeReader_new r0)) fs3 = Inr r2
         \<and> EdgeReader_init_files r2 fs3 = Inr r3 \<and> is_unsorted r3
         \<and> (\<forall>n. \<exists>r4. pull_edges NextUnsortedEdge n r3 =
               Inr (map Some (take n (concat (stored_edges (w_words_per_edge w0)
                                                (nat (w_num_threads w0)) ops)))
                    @ replicate (n - length (concat (stored_edges (w_words_per_edge w0)
                                                (nat (w_num_threads w0)) ops))) None, r4))))
   \<and> (closed_writer w0 \<and> w_words_per_edge w0 = 2 \<and> w_num_threads w0 = 2
      \<and> length e1 = 2 \<and> length e2 = 2 \<and> length e3 = 2
     \<longrightarrow>
      (\<exists>w1 s1 s2 w3 fs3 r2 r3 r4. set_unsorted w0 = Inr w1
         \<and> EdgeWriter_init_files (w1, fs0) = Inr s1
         \<and> run_unsorted [(e1, 0), (e2, 0), (e3, 1)] s1 = Inr s2
         \<and> EdgeWriter_destroy s2 = Inr (w3, fs3)
         \<and> read_info (reader_set_file_prefix (w_file_prefix w0) (EdgeReader_new r0)) fs3 = Inr r2
         \<and> EdgeReader_init_files r2 fs3 = Inr r3
         \<and> pull_edges NextUnsortedEdge 4 r3 = Inr ([Some e1, Some e2, Some e3, None], r4)))"
proof (intro conjI impI)
  assume "closed_writer w0 \<and> set_unsorted w0 = Inr w1 \<and> EdgeWriter_init_files (w1, fs0) = Inr s1
      \<and> run_unsorted ops s1 = Inr s2"
  then have h: "closed_writer w0" "set_unsorted w0 = Inr w1"
    "EdgeWriter_init_files (w1, fs0) = Inr s1" "run_unsorted ops s1 = Inr s2"
    by simp_all
  from unsorted_store_read [OF h, of r0] obtain w3 fs3 r2 r3 where
    r: "EdgeWriter_destroy s2 = Inr (w3, fs3)"
      "read_info (reader_set_file_prefix (w_file_prefix w0) (EdgeReader_new r0)) fs3 = Inr r2"
      "EdgeReader_init_files r2 fs3 = Inr r3" "is_unsorted r3"
    and inv: "unsorted_reader_inv
        (stored_edges (w_words_per_edge w0) (nat (w_num_threads w0)) ops) r3"
    and pend: "unsorted_pending (stored_edges (w_words_per_edge w0) (nat (w_num_threads w0)) ops) r3
          = concat (stored_edges (w_words_per_edge w0) (nat (w_num_threads w0)) ops)"
    by blast
  from pull_unsorted_spec [OF inv] pend r
  show "\<exists>w3 fs3 r2 r3. EdgeWriter_destroy s2 = Inr (w3, fs3)
         \<and> read_info (reader_set_file_prefix (w_file_prefix w0) (EdgeReader_new r0)) fs3 = Inr r2
         \<and> EdgeReader_init_files r2 fs3 = Inr r3 \<and> is_unsorted r3
         \<and> (\<forall>n. \<exists>r4. pull_edges NextUnsortedEdge n r3 =
               Inr (map Some (take n (concat (stored_edges (w_words_per_edge w0)
                                                (nat (w_num_threads w0)) ops)))
                    @ replicate (n - length (concat (stored_edges (w_words_per_edge w0)
                                                (nat (w_num_threads w0)) ops))) None, r4))"
    by (intro exI [of _ w3] exI [of _ fs3] exI [of _ r2] exI [of _ r3]) simp
next
  assume a: "closed_writer w0 \<and> w_words_per_edge w0 = 2 \<and> w_num_threads w0 = 2
      \<and> length e1 = 2 \<and> length e2 = 2 \<and> length e3 = 2"
  then have cw: "closed_writer w0" and wpe: "w_words_per_edge w0 = 2"
    and n: "w_num_threads w0 = 2" and len: "length e1 = 2" "length e2 = 2" "length e3 = 2"
    by simp_all
  let ?ops = "[(e1, 0), (e2, 0), (e3, 1)]"
  from three_edges_written [OF cw wpe n len, of fs0] obtain w1 s1 s2 where
    h: "set_unsorted w0 = Inr w1" "EdgeWriter_init_files (w1, fs0) = Inr s1"
      "run_unsorted ?ops s1 = Inr s2"
    by blast
  from unsorted_store_read [OF cw h, of r0] obtain w3 fs3 r2 r3 where
    r: "EdgeWriter_destroy s2 = Inr (w3, fs3)"
      "read_info (reader_set_file_prefix (w_file_prefix w0) (EdgeReader_new r0)) fs3 = Inr r2"
      "EdgeReader_init_files r2 fs3 = Inr r3"
    and inv: "unsorted_reader_inv (stored_edges (w_words_per_edge w0) (nat (w_num_threads w0)) ?ops) r3"
    and pend: "unsorted_pending (stored_edges (w_words_per_edge w0) (nat (w_num_threads w0)) ?ops) r3
          = concat (stored_edges (w_words_per_edge w0) (nat (w_num_threads w0)) ?ops)"
    by blast
  have st: "concat (stored_edges (w_words_per_edge w0) (nat (w_num_threads w0)) ?ops) = [e1, e2, e3]"
    using len by (simp add: stored_edges_def thread_edges_def wpe n upt_rec numeral_2_eq_2)
  from pull_unsorted_spec [OF inv, of 4] obtain r4 where
    "pull_edges NextUnsortedEdge 4 r3 = Inr ([Some e1, Some e2, Some e3, None], r4)"
    unfolding pend st by auto
  with h r show "\<exists>w1 s1 s2 w3 fs3 r2 r3 r4. set_unsorted w0 = Inr w1
         \<and> EdgeWriter_init_files (w1, fs0) = Inr s1
         \<and> run_unsorted [(e1, 0), (e2, 0), (e3, 1)] s1 = Inr s2
         \<and> EdgeWriter_destroy s2 = Inr (w3, fs3)
         \<and> read_info (reader_set_file_prefix (w_file_prefix w0) (EdgeReader_new r0)) fs3 = Inr r2
         \<and> EdgeReader_init_files r2 fs3 = Inr r3
         \<and> pull_edges NextUnsortedEdge 4 r3 = Inr ([Some e1, Some e2, Some e3, None], r4)"
    by blast
qed

theorem unsorted_round_trip_witness:
  "closed_writer ex_unsorted_writer \<and> w_words_per_edge ex_unsorted_writer = 2
   \<and> w_num_threads ex_unsorted_writer = 2
   \<and> (\<exists>w1 s1 s2 w3 fs3 r2 r3 r4 r5. set_unsorted ex_unsorted_writer = Inr w1
         \<and> EdgeWriter_init_files (w1, Map.empty) = Inr s1
         \<and> run_unsorted [([1, 2], 0), ([3, 4], 0), ([5, 6], 1)] s1 = Inr s2
         \<and> EdgeWriter_destroy s2 = Inr (w3, fs3)
         \<and> read_info (reader_set_file_prefix ''p'' (EdgeReader_new ex_open_reader)) fs3 = Inr r2
         \<and> EdgeReader_init_files r2 fs3 = Inr r3
         \<and> pull_edges NextUnsortedEdge 4 r3
             = Inr ([Some [1, 2], Some [3, 4], Some [5, 6], None], r4)
         \<and> pull_edges NextUnsortedEdge 2 r3 = Inr ([Some [1, 2], Some [3, 4]], r5))"
proof -
  have c: "closed_writer ex_unsorted_writer" "w_words_per_edge ex_unsorted_writer = 2"
    "w_num_threads ex_unsorted_writer = 2" "w_file_prefix ex_unsorted_writer = ''p''"
    by (simp_all add: ex_unsorted_writer_def closed_writer_def EdgeWriter_new_def
        set_num_threads_def set_file_prefix_def)
  let ?ops = "[([1, 2], 0), ([3, 4], 0), ([5, 6 :: 32 word], 1 :: int)]"
  have h: "closed_writer ex_unsorted_writer \<and> w_words_per_edge ex_unsorted_writer = 2
      \<and> w_num_threads ex_unsorted_writer = 2
      \<and> length [1, 2 :: 32 word] = 2 \<and> length [3, 4 :: 32 word] = 2
      \<and> length [5, 6 :: 32 word] = 2"
    using c by simp
  from unsorted_round_trip [of ex_unsorted_writer _ _ _ _ _ _ "[1, 2]" "[3, 4]" "[5, 6]",
      THEN conjunct2, THEN mp, OF h, of Map.empty ex_open_reader]
  obtain w1 s1 s2 w3 fs3 r2 r3 r4 where
    r: "set_unsorted ex_unsorted_writer = Inr w1"
      "EdgeWriter_init_files (w1, Map.empty) = Inr s1"
      "run_unsorted ?ops s1 = Inr s2"
      "EdgeWriter_destroy s2 = Inr (w3, fs3)"
      "read_info (reader_set_file_prefix ''p'' (EdgeReader_new ex_open_reader)) fs3 = Inr r2"
      "EdgeReader_init_files r2 fs3 = Inr r3"
      "pull_edges NextUnsortedEdge 4 r3 = Inr ([Some [1, 2], Some [3, 4], Some [5, 6], None], r4)"
    unfolding c by blast
  have h1: "closed_writer ex_unsorted_writer \<and> set_unsorted ex_unsorted_writer = Inr w1
      \<and> EdgeWriter_init_files (w1, Map.empty) = Inr s1 \<and> run_unsorted ?ops s1 = Inr s2"
    using c r by simp
  have st: "concat (stored_edges 2 2 ?ops) = [[1, 2], [3, 4], [5, 6]]"
    by (simp add: stored_edges_def thread_edges_def upt_rec numeral_2_eq_2)
  from unsorted_round_trip [of ex_unsorted_writer w1 Map.empty s1 ?ops s2 ex_open_reader,
      THEN conjunct1, THEN mp, OF h1]
  obtain v3 gs3 q2 q3 where
    q: "EdgeWriter_destroy s2 = Inr (v3, gs3)"
      "read_info (reader_set_file_prefix ''p'' (EdgeReader_new ex_open_reader)) gs3 = Inr q2"
      "EdgeReader_init_files q2 gs3 = Inr q3"
      "\<forall>n. \<exists>r4. pull_edges NextUnsortedEdge n q3 =
         Inr (map Some (take n (concat (stored_edges 2 2 ?ops)))
              @ replicate (n - length (concat (stored_edges 2 2 ?ops))) None, r4)"
    unfolding c by auto
  from q(1) r(4) have "gs3 = fs3" by simp
  with q(2) r(5) have "q2 = r2" by simp
  with q(3) r(6) \<open>gs3 = fs3\<close> have "q3 = r3" by simp
  from q(4) [rule_format, of 2] obtain r5 where
    "pull_edges NextUnsortedEdge 2 r3 = Inr ([Some [1, 2], Some [3, 4]], r5)"
    unfolding st \<open>q3 = r3\<close> by auto
  with c r show ?thesis by blast
qed

subsection \<open>Stores written in sorted mode\<close>

lemma count_by_key:
  "\<forall>x\<in>set xs. 0 \<le> key x \<and> key x < int n \<Longrightarrow>
   (\<Sum>b\<leftarrow>[0..<n]. int (length (filter (\<lambda>x. key x = int b) xs))) = int (length xs)"
proof (induction xs)
  case Nil
  then show ?case by simp
next
  case (Cons x xs)
  define k where "k = nat (key x)"
  have k: "k < n" "key x = int k" using Cons.prems by (simp_all add: k_def nat_less_iff)
  have one: "(\<Sum>b\<leftarrow>[0..<n]. if k = b then 1 else 0) = (1 :: int)"
    using k(1) by (simp add: interv_sum_list_conv_sum_set_nat)
  have "(\<Sum>b\<leftarrow>[0..<n]. int (length (filter (\<lambda>x. key x = int b) (x # xs))))
      = (\<Sum>b\<leftarrow>[0..<n]. (if k = b then 1 else 0)
            + int (length (filter (\<lambda>x. key x = int b) xs)))"
    by (intro arg_cong [where f = sum_list] map_cong) (auto simp: k)
  also have "\<dots> = 1 + int (length xs)"
    using Cons one by (simp add: sum_list_addf)
  finally show ?case by simp
qed

lemma owned_total_nth:
  "owned_total prs t
     = (\<Sum>b\<leftarrow>[0..<length prs]. if thread_id (prs ! b) = t then total_number (prs ! b) else 0)"
proof -
  have "map (\<lambda>pr. if thread_id pr = t then total_number pr else 0) prs
      = map (\<lambda>b. if thread_id (prs ! b) = t then total_number (prs ! b) else 0) [0..<length prs]"
    by (intro nth_equalityI) simp_all
  then show ?thesis by (simp add: owned_total_def)
qed

lemma bucket_ops_of_thread:
  assumes "bucket_inv w ops b" and "0 \<le> t"
  shows "int (length (filter (\<lambda>(e, b', t'). b' = int b) (thread_ops t ops)))
     = (if thread_id (w_p_rec w ! b) = t then total_number (w_p_rec w ! b) else 0)"
proof -
  let ?pr = "w_p_rec w ! b"
  have comm: "filter (\<lambda>(e, b', t'). b' = int b) (thread_ops t ops)
      = filter (\<lambda>(e, b', t'). t' = t) (bucket_ops (int b) ops)"
    by (auto simp: thread_ops_def bucket_ops_def intro: filter_cong)
  show ?thesis
  proof (cases "thread_id ?pr = - 1 \<and> bucket_ops (int b) ops = [] \<and> total_number ?pr = 0")
    case True
    then show ?thesis using assms(2) by (simp add: comm)
  next
    case False
    with assms(1) have o: "0 \<le> starting_offset ?pr" "0 < total_number ?pr"
      "starting_offset ?pr + total_number ?pr \<le> int (length (thread_ops (thread_id ?pr) ops))"
      and bops: "bucket_ops (int b) ops = take (nat (total_number ?pr))
                     (drop (nat (starting_offset ?pr)) (thread_ops (thread_id ?pr) ops))"
      by (auto simp: bucket_inv_def Let_def)
    have len: "int (length (bucket_ops (int b) ops)) = total_number ?pr"
      unfolding bops using o by simp
    have "set (bucket_ops (int b) ops) \<subseteq> set (thread_ops (thread_id ?pr) ops)"
      unfolding bops by (meson set_take_subset set_drop_subset subset_trans)
    then have all: "\<forall>(e, b', t')\<in>set (bucket_ops (int b) ops). t' = thread_id ?pr"
      by (auto simp: thread_ops_def)
    show ?thesis
    proof (cases "thread_id ?pr = t")
      case True
      with all have "filter (\<lambda>(e, b', t'). t' = t) (bucket_ops (int b) ops) = bucket_ops (int b) ops"
        by (intro filter_True) auto
      with True len show ?thesis by (simp add: comm)
    next
      case False
      with all have "filter (\<lambda>(e, b', t'). t' = t) (bucket_ops (int b) ops) = []"
        by (intro filter_False) auto
      with False show ?thesis by (simp add: comm)
    qed
  qed
qed

lemma owned_total_thread_ops:
  assumes "\<forall>b < length (w_p_rec w). bucket_inv w ops b" and "0 \<le> t"
    and "\<forall>(e, b, t')\<in>set ops. 0 \<le> b \<and> b < int (length (w_p_rec w))"
  shows "owned_total (w_p_rec w) t = int (length (thread_ops t ops))"
proof -
  have "\<forall>x\<in>set (thread_ops t ops). 0 \<le> fst (snd x) \<and> fst (snd x) < int (length (w_p_rec w))"
    using assms(3) by (auto simp: thread_ops_def)
  from count_by_key [OF this]
  have "int (length (thread_ops t ops))
      = (\<Sum>b\<leftarrow>[0..<length (w_p_rec w)].
           int (length (filter (\<lambda>x. fst (snd x) = int b) (thread_ops t ops))))"
    by simp
  also have "\<dots> = (\<Sum>b\<leftarrow>[0..<length (w_p_rec w)].
       if thread_id (w_p_rec w ! b) = t then total_number (w_p_rec w ! b) else 0)"
  proof (intro arg_cong [where f = sum_list] map_cong refl)
    fix b assume "b \<in> set [0..<length (w_p_rec w)]"
    then have "bucket_inv w ops b" using assms(1) by simp
    have "(\<lambda>x :: write_op. fst (snd x) = int b) = (\<lambda>(e, b', t'). b' = int b)"
      by auto
    then show "int (length (filter (\<lambda>x. fst (snd x) = int b) (thread_ops t ops)))
        = (if thread_id (w_p_rec w ! b) = t then total_number (w_p_rec w ! b) else 0)"
      using bucket_ops_of_thread [OF \<open>bucket_inv w ops b\<close> assms(2)] by simp
  qed
  finally show ?thesis by (simp add: owned_total_nth)
qed

lemma read_bucket_rows_tokens:
  "length prs = n \<Longrightarrow> i + n \<le> length p \<Longrightarrow> fsz \<noteq> [] \<Longrightarrow>
   \<forall>pr\<in>set prs. 0 \<le> thread_id pr \<and> thread_id pr < int (length fsz)
      \<or> thread_id pr = - 1 \<and> total_number pr = 0 \<Longrightarrow>
   read_bucket_rows n i
     (concat (map (\<lambda>(i, pr). [Num (int i), Num (thread_id pr), Num (starting_offset pr),
                               Num (total_number pr)]) (enumerate i prs)) @ rest) p fsz
     = Inr (rest, take i p @ prs @ drop (i + n) p,
            map (\<lambda>t. fsz ! t + owned_total prs (int t)) [0..<length fsz])"
proof (induction prs arbitrary: n i p fsz)
  case Nil
  then show ?case by (simp add: owned_total_def map_nth)
next
  case (Cons pr prs)
  then obtain m where n: "n = Suc m" and m: "length prs = m" by (cases n) auto
  let ?p = "p[i := \<lparr>thread_id = thread_id pr, starting_offset = starting_offset pr,
                   total_number = total_number pr\<rparr>]"
  have len: "Suc i + m \<le> length ?p" using Cons.prems n by simp
  have tk: "take (Suc i) ?p = take i p @ [pr]"
    using Cons.prems n by (simp add: take_Suc_conv_app_nth)
  show ?case
  proof (cases "0 \<le> thread_id pr \<and> thread_id pr < int (length fsz)")
    case True
    let ?fsz = "fsz[nat (thread_id pr) := fsz ! nat (thread_id pr) + total_number pr]"
    have ne: "?fsz \<noteq> []" using Cons.prems(3) by simp
    have ids: "\<forall>pr\<in>set prs. 0 \<le> thread_id pr \<and> thread_id pr < int (length ?fsz)
        \<or> thread_id pr = - 1 \<and> total_number pr = 0"
      using Cons.prems(4) by simp
    have sz: "map (\<lambda>t. ?fsz ! t + owned_total prs (int t)) [0..<length fsz]
        = map (\<lambda>t. fsz ! t + owned_total (pr # prs) (int t)) [0..<length fsz]"
      using True by (intro nth_equalityI) (auto simp: owned_total_def nth_list_update)
    from Cons.IH [OF m len ne ids] show ?thesis
      using True by (simp add: n tk sz bind_err_def del: PartitionRecord.simps)
  next
    case False
    with Cons.prems(4) have un: "thread_id pr = - 1" "total_number pr = 0" by auto
    have ids: "\<forall>pr\<in>set prs. 0 \<le> thread_id pr \<and> thread_id pr < int (length fsz)
        \<or> thread_id pr = - 1 \<and> total_number pr = 0"
      using Cons.prems(4) by simp
    have sz: "map (\<lambda>t. fsz ! t + owned_total prs (int t)) [0..<length fsz]
        = map (\<lambda>t. fsz ! t + owned_total (pr # prs) (int t)) [0..<length fsz]"
      using un by (simp add: owned_total_def)
    have step: "read_bucket_rows n i
        (concat (map (\<lambda>(i, pr). [Num (int i), Num (thread_id pr), Num (starting_offset pr),
                               Num (total_number pr)]) (enumerate i (pr # prs))) @ rest) p fsz
      = read_bucket_rows m (Suc i)
        (concat (map (\<lambda>(i, pr). [Num (int i), Num (thread_id pr), Num (starting_offset pr),
                               Num (total_number pr)]) (enumerate (Suc i) prs)) @ rest) ?p fsz"
      using un Cons.prems(3) by (simp add: n bind_err_def)
    from Cons.IH [OF m len Cons.prems(3) ids] show ?thesis
      unfolding step by (simp add: n tk sz)
  qed
qed

lemma read_info_sorted:
  assumes "fs (EdgesInfo (r_file_prefix r)) =
      Some (Text ([Lit ''kmer_size'', Num k, Lit ''words_per_edge'', Num wpe,
                   Lit ''num_threads'', Num nf, Lit ''num_bucket'', Num (int (length prs)),
                   Lit ''num_edges'', Num ne]
                  @ concat (map (\<lambda>(i, pr). [Num (int i), Num (thread_id pr),
                                  Num (starting_offset pr), Num (total_number pr)])
                             (enumerate 0 prs))
                  @ rest))"
    and "prs \<noteq> []" and "r_file_sizes r = []" and "0 < nf"
    and "\<forall>pr\<in>set prs. 0 \<le> thread_id pr \<and> thread_id pr < nf
            \<or> thread_id pr = - 1 \<and> total_number pr = 0"
  shows "read_info r fs =
     Inr (r\<lparr>r_kmer_size := k, r_words_per_edge := wpe, r_num_files := nf,
            r_num_buckets := int (length prs), r_num_edges := ne,
            r_p_rec := prs,
            r_file_sizes := map (\<lambda>t. owned_total prs (int t)) [0..<nat nf]\<rparr>)"
proof -
  let ?p = "resize (length prs) PartitionRecord_new (r_p_rec r)"
  let ?z = "replicate (nat nf) (0 :: int)"
  have lp: "length ?p = length prs" by (simp add: resize_def)
  have nz: "?z \<noteq> []" using assms(4) by simp
  have ids: "\<forall>pr\<in>set prs. 0 \<le> thread_id pr \<and> thread_id pr < int (length ?z)
      \<or> thread_id pr = - 1 \<and> total_number pr = 0"
    using assms(4,5) by simp
  have "read_bucket_rows (length prs) 0
          (concat (map (\<lambda>(i, pr). [Num (int i), Num (thread_id pr),
                                  Num (starting_offset pr), Num (total_number pr)])
                             (enumerate 0 prs)) @ rest) ?p ?z
      = Inr (rest, take 0 ?p @ prs @ drop (0 + length prs) ?p,
             map (\<lambda>t. ?z ! t + owned_total prs (int t)) [0..<length ?z])"
    using lp nz ids by (intro read_bucket_rows_tokens) simp_all
  moreover have "map (\<lambda>t. ?z ! t + owned_total prs (int t)) [0..<length ?z]
      = map (\<lambda>t. owned_total prs (int t)) [0..<nat nf]"
    by (intro nth_equalityI) simp_all
  moreover have "take 0 ?p @ prs @ drop (0 + length prs) ?p = prs"
    using lp by simp
  ultimately have rows: "read_bucket_rows (length prs) 0
          (concat (map (\<lambda>(i, pr). [Num (int i), Num (thread_id pr),
                                  Num (starting_offset pr), Num (total_number pr)])
                             (enumerate 0 prs)) @ rest) ?p ?z
      = Inr (rest, prs, map (\<lambda>t. owned_total prs (int t)) [0..<nat nf])"
    by simp
  show ?thesis
    using assms(1,2,3,4) rows by (simp add: read_info_def resize_def)
qed

subsection \<open>Reading in sorted mode\<close>

lemma skip_unassigned_spec:
  "0 \<le> cb \<Longrightarrow> cb \<le> int (length p) \<Longrightarrow>
   \<exists>c. skip_unassigned p (int (length p)) cb = Inr c \<and> cb \<le> c \<and> c \<le> int (length p)
     \<and> (c < int (length p) \<longrightarrow> 0 \<le> thread_id (p ! nat c))
     \<and> concat (map (sorted_run recs) (drop (nat c) p))
         = concat (map (sorted_run recs) (drop (nat cb) p))"
proof (induction "nat (int (length p) - cb)" arbitrary: cb rule: less_induct)
  case less
  show ?case
  proof (cases "cb < int (length p)")
    case False
    then have "skip_unassigned p (int (length p)) cb = Inr cb"
      by (simp add: skip_unassigned.simps [of p _ cb])
    with less.prems False show ?thesis by auto
  next
    case True
    show ?thesis
    proof (cases "thread_id (p ! nat cb) < 0")
      case False
      then have "skip_unassigned p (int (length p)) cb = Inr cb"
        using True less.prems by (simp add: skip_unassigned.simps [of p _ cb])
      with less.prems False show ?thesis by auto
    next
      case neg: True
      have eq: "skip_unassigned p (int (length p)) cb = skip_unassigned p (int (length p)) (cb + 1)"
        using True neg less.prems by (simp add: skip_unassigned.simps [of p _ cb])
      have "nat (int (length p) - (cb + 1)) < nat (int (length p) - cb)"
        using True by simp
      from less.hyps [OF this] True less.prems obtain c where
        c: "skip_unassigned p (int (length p)) (cb + 1) = Inr c" "cb + 1 \<le> c" "c \<le> int (length p)"
          "c < int (length p) \<longrightarrow> 0 \<le> thread_id (p ! nat c)"
          "concat (map (sorted_run recs) (drop (nat c) p))
             = concat (map (sorted_run recs) (drop (nat (cb + 1)) p))"
        by force
      have "nat (cb + 1) = Suc (nat cb)" using less.prems by simp
      moreover have "drop (nat cb) p = p ! nat cb # drop (Suc (nat cb)) p"
        using True less.prems by (simp add: Cons_nth_drop_Suc)
      ultimately have "concat (map (sorted_run recs) (drop (nat (cb + 1)) p))
          = concat (map (sorted_run recs) (drop (nat cb) p))"
        using neg by (simp add: sorted_run_def)
      with c eq show ?thesis by auto
    qed
  qed
qed

lemma length_sorted_run:
  assumes "0 \<le> thread_id pr" "0 \<le> starting_offset pr" "0 \<le> total_number pr"
    "starting_offset pr + total_number pr \<le> int (length (recs ! nat (thread_id pr)))"
  shows "int (length (sorted_run recs pr)) = total_number pr"
  using assms by (simp add: sorted_run_def)

lemma sorted_advance_spec:
  "sorted_reader_inv recs r \<Longrightarrow> r_cur_bucket r < r_num_buckets r \<Longrightarrow>
   \<exists>b r'. sorted_advance r = Inr (b, r') \<and> sorted_reader_inv recs r'
     \<and> sorted_pending recs r' = sorted_pending recs r
     \<and> (b \<longrightarrow> r_num_buckets r' \<le> r_cur_bucket r')
     \<and> (\<not> b \<longrightarrow> r_cur_bucket r' < r_num_buckets r' \<and> 0 \<le> r_cur_bucket r'
              \<and> r_cur_cnt r' < r_cur_vol r')"
proof (induction "nat (r_num_buckets r - r_cur_bucket r)" arbitrary: r rule: less_induct)
  case less
  note inv = less.prems(1) and lt = less.prems(2)
  let ?p = "r_p_rec r"
  from inv lt have pos: "- 1 \<le> r_cur_bucket r" "0 \<le> r_cur_cnt r" "r_cur_cnt r \<le> r_cur_vol r"
    and nb: "r_num_buckets r = int (length ?p)"
    and lm: "length (r_mmaps r) = length recs"
    and bk: "\<And>pr. pr \<in> set ?p \<Longrightarrow> 0 \<le> thread_id pr \<Longrightarrow>
            thread_id pr < int (length recs) \<and> 0 \<le> starting_offset pr \<and> 0 \<le> total_number pr
            \<and> starting_offset pr + total_number pr \<le> int (length (recs ! nat (thread_id pr)))"
    by (simp_all add: sorted_reader_inv_def)
  show ?case
  proof (cases "r_cur_vol r \<le> r_cur_cnt r")
    case False
    then have "sorted_advance r = Inr (False, r)"
      by (simp add: sorted_advance.simps [of r])
    moreover have "0 \<le> r_cur_bucket r"
    proof (rule ccontr)
      assume "\<not> 0 \<le> r_cur_bucket r"
      with pos have "r_cur_bucket r = - 1" by simp
      with inv lt have "r_cur_vol r = 0" by (simp add: sorted_reader_inv_def)
      with False pos show False by simp
    qed
    ultimately show ?thesis using inv lt False by auto
  next
    case True
    have cur: "drop (nat (r_cur_cnt r))
             (if 0 \<le> r_cur_bucket r then sorted_run recs (?p ! nat (r_cur_bucket r)) else []) = []"
    proof (cases "0 \<le> r_cur_bucket r")
      case False
      then show ?thesis by simp
    next
      case c0: True
      with lt nb have mem: "?p ! nat (r_cur_bucket r) \<in> set ?p" by simp
      from inv lt c0 have own: "0 \<le> thread_id (?p ! nat (r_cur_bucket r))"
        and vol: "r_cur_vol r = total_number (?p ! nat (r_cur_bucket r))"
        by (simp_all add: sorted_reader_inv_def)
      from bk [OF mem own] have "int (length (sorted_run recs (?p ! nat (r_cur_bucket r))))
          = total_number (?p ! nat (r_cur_bucket r))"
        using own by (intro length_sorted_run) simp_all
      with vol True pos c0 show ?thesis by simp
    qed
    have c1: "0 \<le> r_cur_bucket r + 1" "r_cur_bucket r + 1 \<le> int (length ?p)"
      using pos lt nb by simp_all
    from skip_unassigned_spec [OF c1, of recs] obtain c where
      sk: "skip_unassigned ?p (r_num_buckets r) (r_cur_bucket r + 1) = Inr c"
      and c: "r_cur_bucket r + 1 \<le> c" "c \<le> int (length ?p)"
        "c < int (length ?p) \<longrightarrow> 0 \<le> thread_id (?p ! nat c)"
      and runs: "concat (map (sorted_run recs) (drop (nat c) ?p))
         = concat (map (sorted_run recs) (drop (nat (r_cur_bucket r + 1)) ?p))"
      unfolding nb by blast
    have pend: "sorted_pending recs r = concat (map (sorted_run recs) (drop (nat c) ?p))"
      using lt cur runs by (simp add: sorted_pending_def)
    show ?thesis
    proof (cases "r_num_buckets r \<le> c")
      case ex: True
      have adv: "sorted_advance r = Inr (True, r\<lparr>r_cur_bucket := c\<rparr>)"
        using True sk ex by (simp add: sorted_advance.simps [of r])
      have "sorted_pending recs r = []"
        using pend ex nb by simp
      moreover have "sorted_pending recs (r\<lparr>r_cur_bucket := c\<rparr>) = []"
        using ex by (simp add: sorted_pending_def)
      moreover have "sorted_reader_inv recs (r\<lparr>r_cur_bucket := c\<rparr>)"
        using inv ex by (simp add: sorted_reader_inv_def)
      ultimately show ?thesis using adv ex by auto
    next
      case False
      let ?pr = "?p ! nat c"
      have cl: "0 \<le> c" "c < int (length ?p)" "nat c < length ?p"
        using c pos False nb by simp_all
      then have mem: "?pr \<in> set ?p" by simp
      have own: "0 \<le> thread_id ?pr" using c(3) cl by simp
      note b = bk [OF mem own]
      define r1 where "r1 = r\<lparr>r_cur_bucket := c, r_cur_cnt := 0,
                              r_cur_vol := total_number ?pr,
                              r_cur_ptr := (thread_id ?pr,
                                 r_words_per_edge r * starting_offset ?pr)\<rparr>"
      have adv: "sorted_advance r = sorted_advance r1"
        using True sk False cl own b lm
        by (simp add: sorted_advance.simps [of r] at_idx_def r1_def)
      have inv1: "sorted_reader_inv recs r1"
        using inv cl own b by (simp add: sorted_reader_inv_def r1_def)
      have lt1: "r_cur_bucket r1 < r_num_buckets r1"
        using False by (simp add: r1_def)
      have "nat (c + 1) = Suc (nat c)" using cl by simp
      then have "sorted_pending recs r1 = concat (map (sorted_run recs) (drop (nat c) ?p))"
        using False cl by (simp add: sorted_pending_def r1_def Cons_nth_drop_Suc [symmetric])
      then have pend1: "sorted_pending recs r1 = sorted_pending recs r"
        using pend by simp
      have "nat (r_num_buckets r1 - r_cur_bucket r1) < nat (r_num_buckets r - r_cur_bucket r)"
        using lt c by (simp add: r1_def)
      from less.hyps [OF this inv1 lt1] obtain b' r' where
        "sorted_advance r1 = Inr (b', r')" "sorted_reader_inv recs r'"
        "sorted_pending recs r' = sorted_pending recs r1"
        "b' \<longrightarrow> r_num_buckets r' \<le> r_cur_bucket r'"
        "\<not> b' \<longrightarrow> r_cur_bucket r' < r_num_buckets r' \<and> 0 \<le> r_cur_bucket r'
              \<and> r_cur_cnt r' < r_cur_vol r'"
        by blast
      then show ?thesis
        using adv pend1 by auto
    qed
  qed
qed

text \<open>
  \<open>NextSortedEdge\<close> on a reader whose metadata and mappings are loaded: it returns the
  next pending record, passing over the buckets whose thread id is negative, and the null
  pointer when no record is pending.
\<close>

lemma NextSortedEdge_spec:
  assumes inv: "sorted_reader_inv recs r"
  shows "\<exists>p r'. NextSortedEdge r = Inr (p, r') \<and> sorted_reader_inv recs r'
     \<and> (case sorted_pending recs r of
           [] \<Rightarrow> p = None \<and> sorted_pending recs r' = []
         | x # xs \<Rightarrow> \<exists>q. p = Some q \<and> edge_at r' q = Inr x \<and> sorted_pending recs r' = xs)"
proof (cases "r_num_buckets r \<le> r_cur_bucket r")
  case True
  then have "NextSortedEdge r = Inr (None, r)" by (simp add: NextSortedEdge_def)
  moreover have "sorted_pending recs r = []" using True by (simp add: sorted_pending_def)
  ultimately show ?thesis using inv by simp
next
  case False
  then have lt: "r_cur_bucket r < r_num_buckets r" by simp
  from sorted_advance_spec [OF inv lt] obtain b r1 where
    adv: "sorted_advance r = Inr (b, r1)" and inv1: "sorted_reader_inv recs r1"
    and pend: "sorted_pending recs r1 = sorted_pending recs r"
    and ex: "b \<longrightarrow> r_num_buckets r1 \<le> r_cur_bucket r1"
    and more: "\<not> b \<longrightarrow> r_cur_bucket r1 < r_num_buckets r1 \<and> 0 \<le> r_cur_bucket r1
              \<and> r_cur_cnt r1 < r_cur_vol r1"
    by blast
  show ?thesis
  proof (cases b)
    case True
    then have "NextSortedEdge r = Inr (None, r1)"
      using False adv by (simp add: NextSortedEdge_def)
    moreover have "sorted_pending recs r = []"
      using True ex pend by (simp add: sorted_pending_def)
    ultimately show ?thesis using inv1 pend by simp
  next
    case nb: False
    let ?wpe = "r_words_per_edge r1"
    let ?cb = "r_cur_bucket r1"
    let ?pr = "r_p_rec r1 ! nat ?cb"
    let ?t = "nat (thread_id ?pr)"
    let ?file = "recs ! ?t"
    let ?run = "sorted_run recs ?pr"
    let ?c = "nat (r_cur_cnt r1)"
    let ?o = "nat (starting_offset ?pr)"
    define r2 where "r2 = r1\<lparr>r_cur_cnt := r_cur_cnt r1 + 1,
        r_cur_ptr := (fst (r_cur_ptr r1), snd (r_cur_ptr r1) + ?wpe)\<rparr>"
    from nb more have f: "?cb < r_num_buckets r1" "0 \<le> ?cb" and cv: "r_cur_cnt r1 < r_cur_vol r1"
      by simp_all
    from inv1 f have nbk: "r_num_buckets r1 = int (length (r_p_rec r1))"
      and c0: "0 \<le> r_cur_cnt r1" and own: "0 \<le> thread_id ?pr"
      and vol: "r_cur_vol r1 = total_number ?pr"
      and ptr: "r_cur_ptr r1 = (thread_id ?pr, ?wpe * starting_offset ?pr + r_cur_cnt r1 * ?wpe)"
      and lm: "length (r_mmaps r1) = length recs"
      by (simp_all add: sorted_reader_inv_def)
    from f nbk have mem: "?pr \<in> set (r_p_rec r1)" by simp
    with inv1 own have b: "thread_id ?pr < int (length recs)" "0 \<le> starting_offset ?pr"
      "0 \<le> total_number ?pr"
      "starting_offset ?pr + total_number ?pr \<le> int (length ?file)"
      by (simp_all add: sorted_reader_inv_def)
    have tl: "?t < length recs" using own b(1) by (simp add: nat_less_iff)
    with inv1 have mm: "r_mmaps r1 ! ?t = concat ?file"
      and uni: "\<forall>e\<in>set ?file. length e = nat ?wpe" and wp: "\<forall>e\<in>set ?file. 0 \<le> ?wpe"
      by (simp_all add: sorted_reader_inv_def)
    have rl: "int (length ?run) = total_number ?pr"
      using own b by (intro length_sorted_run) simp_all
    have cl: "?c < length ?run" using cv c0 vol rl by linarith
    have j: "?o + ?c < length ?file" using b cv c0 vol by linarith
    then have "?file ! (?o + ?c) \<in> set ?file" by simp
    with wp have wpe0: "0 \<le> ?wpe" by blast
    have "?o \<le> length ?file" using j by simp
    then have nth: "?run ! ?c = ?file ! (?o + ?c)"
      using own cl by (simp add: sorted_run_def)
    have nxt: "NextSortedEdge r = Inr (Some (r_cur_ptr r1), r2)"
      using False adv nb by (simp add: NextSortedEdge_def r2_def)
    have "int ((?o + ?c) * nat ?wpe) = ?wpe * starting_offset ?pr + r_cur_cnt r1 * ?wpe"
      using c0 wpe0 b(2) by (simp add: algebra_simps)
    then have off: "nat (?wpe * starting_offset ?pr + r_cur_cnt r1 * ?wpe) = (?o + ?c) * nat ?wpe"
      by (metis nat_int)
    have lc: "int (length (concat ?file)) = int (length ?file) * ?wpe"
      using length_concat_uniform [OF uni] wpe0 by simp
    have "(starting_offset ?pr + r_cur_cnt r1 + 1) * ?wpe \<le> int (length ?file) * ?wpe"
      using cv vol b wpe0 by (intro mult_right_mono) simp_all
    then have bound: "?wpe * starting_offset ?pr + r_cur_cnt r1 * ?wpe + ?wpe
        \<le> int (length (concat ?file))"
      unfolding lc by (simp add: algebra_simps)
    have pos: "0 \<le> ?wpe * starting_offset ?pr + r_cur_cnt r1 * ?wpe"
      using c0 wpe0 b(2) by simp
    have edge: "edge_at r2 (r_cur_ptr r1) = Inr (?run ! ?c)"
      unfolding nth
      using own b(1) lm mm pos wpe0 bound concat_nth_uniform [OF uni j]
      by (simp add: edge_at_def ptr r2_def at_idx_def off)
    have inv2: "sorted_reader_inv recs r2"
      using inv1 f cv by (simp add: sorted_reader_inv_def r2_def ptr algebra_simps)
    have "nat (r_cur_cnt r1 + 1) = Suc ?c" using c0 by simp
    then have p2: "sorted_pending recs r2 =
        drop (Suc ?c) ?run @ concat (map (sorted_run recs) (drop (nat (?cb + 1)) (r_p_rec r1)))"
      using f by (simp add: sorted_pending_def r2_def)
    have p1: "sorted_pending recs r =
        ?run ! ?c # drop (Suc ?c) ?run
          @ concat (map (sorted_run recs) (drop (nat (?cb + 1)) (r_p_rec r1)))"
      using f cl unfolding pend [symmetric]
      by (simp add: sorted_pending_def Cons_nth_drop_Suc)
    show ?thesis
      using nxt inv2 edge p1 p2 by (cases "r_cur_ptr r1") auto
  qed
qed

lemma pull_sorted_spec:
  "sorted_reader_inv recs r \<Longrightarrow>
   \<exists>r'. pull_edges NextSortedEdge n r =
     Inr (map Some (take n (sorted_pending recs r))
          @ replicate (n - length (sorted_pending recs r)) None, r')"
proof (induction n arbitrary: r)
  case 0
  then show ?case by simp
next
  case (Suc n)
  from NextSortedEdge_spec [OF Suc.prems] obtain p r1 where
    nxt: "NextSortedEdge r = Inr (p, r1)" and inv1: "sorted_reader_inv recs r1"
    and c: "case sorted_pending recs r of
           [] \<Rightarrow> p = None \<and> sorted_pending recs r1 = []
         | x # xs \<Rightarrow> \<exists>q. p = Some q \<and> edge_at r1 q = Inr x \<and> sorted_pending recs r1 = xs"
    by blast
  from Suc.IH [OF inv1] obtain r' where
    rest: "pull_edges NextSortedEdge n r1 =
     Inr (map Some (take n (sorted_pending recs r1))
          @ replicate (n - length (sorted_pending recs r1)) None, r')"
    by blast
  show ?case
  proof (cases "sorted_pending recs r")
    case Nil
    with c nxt rest show ?thesis by (simp add: replicate_append_same)
  next
    case (Cons x xs)
    with c obtain q where "p = Some q" "edge_at r1 q = Inr x" "sorted_pending recs r1 = xs"
      by auto
    with nxt rest Cons show ?thesis by simp
  qed
qed

subsection \<open>The round trip in sorted mode\<close>

lemma mset_bucket_records:
  assumes "\<forall>(e, b, t)\<in>set ops. 0 \<le> b \<and> b < int n"
  shows "mset (bucket_records wpe n ops) = mset (records_of wpe ops)"
proof -
  have sum: "mset (bucket_records wpe n ops)
      = (\<Sum>b\<leftarrow>[0..<n]. mset (records_of wpe (bucket_ops (int b) ops)))" for ops
    by (simp add: bucket_records_def mset_concat comp_def)
  from assms have "(\<Sum>b\<leftarrow>[0..<n]. mset (records_of wpe (bucket_ops (int b) ops)))
      = mset (records_of wpe ops)"
  proof (induction ops)
    case Nil
    then show ?case by (simp add: bucket_ops_def records_of_def)
  next
    case (Cons op ops)
    obtain e k t where op: "op = (e, k, t)" by (cases op)
    define j where "j = nat k"
    have j: "j < n" "k = int j" using Cons.prems by (simp_all add: op j_def nat_less_iff)
    have one: "(\<Sum>b\<leftarrow>[0..<n]. if j = b then {#take (nat wpe) e#} else {#})
        = {#take (nat wpe) e#}"
      using j(1) by (simp add: interv_sum_list_conv_sum_set_nat)
    have "(\<Sum>b\<leftarrow>[0..<n]. mset (records_of wpe (bucket_ops (int b) (op # ops))))
        = (\<Sum>b\<leftarrow>[0..<n]. (if j = b then {#take (nat wpe) e#} else {#})
              + mset (records_of wpe (bucket_ops (int b) ops)))"
      by (intro arg_cong [where f = sum_list] map_cong)
         (auto simp: op j bucket_ops_def records_of_def)
    also have "\<dots> = {#take (nat wpe) e#} + mset (records_of wpe ops)"
      using Cons one by (simp add: sum_list_addf)
    finally show ?case by (simp add: op records_of_def)
  qed
  with sum show ?thesis by simp
qed

lemma sorted_store_read:
  assumes cw: "closed_writer w0" and init: "EdgeWriter_init_files (w0, fs0) = Inr s0"
    and run: "run_writes ops s0 = Inr s1"
    and nt: "0 < w_num_threads w0" and nb: "0 < w_num_buckets w0"
  shows "\<exists>w1 fs1 w2 fs2 r2 r3. s1 = (w1, fs1) \<and> EdgeWriter_destroy s1 = Inr (w2, fs2)
      \<and> read_info (reader_set_file_prefix (w_file_prefix w0) (EdgeReader_new r0)) fs2 = Inr r2
      \<and> EdgeReader_init_files r2 fs2 = Inr r3 \<and> \<not> is_unsorted r3
      \<and> r_kmer_size r3 = w_kmer_size w0 \<and> r_words_per_edge r3 = w_words_per_edge w0
      \<and> r_p_rec r3 = w_p_rec w1
      \<and> sorted_reader_inv (thread_records (w_words_per_edge w0) (nat (w_num_threads w0)) ops) r3
      \<and> sorted_pending (thread_records (w_words_per_edge w0) (nat (w_num_threads w0)) ops) r3
          = bucket_records (w_words_per_edge w0) (nat (w_num_buckets w0)) ops"
proof -
  let ?N = "nat (w_num_threads w0)"
  let ?B = "nat (w_num_buckets w0)"
  let ?wpe = "w_words_per_edge w0"
  let ?p = "w_file_prefix w0"
  let ?recs = "thread_records ?wpe ?N ops"
  obtain w fs where s0: "s0 = (w, fs)" by (cases s0)
  obtain w1 fs1 where s1: "s1 = (w1, fs1)" by (cases s1)
  note i = init_files_result [OF cw init [unfolded s0]]
  note fr = run_writes_frame [OF run [unfolded s0 s1]]
  note re = reached_inv [OF cw init run [unfolded s1]]
  let ?prs = "w_p_rec w1"
  have fields: "w_is_opened w1" "w_num_threads w1 = w_num_threads w0"
    "w_num_buckets w1 = w_num_buckets w0" "w_file_prefix w1 = ?p"
    "w_words_per_edge w1 = ?wpe" "w_kmer_size w1 = w_kmer_size w0" "length (w_files w1) = ?N"
    "length ?prs = ?B" "length (w_cur_bucket w1) = ?N"
    using fr i(1,2) by (simp_all add: i(3))
  from re(1) have TI: "\<And>t. t < ?N \<Longrightarrow> thread_inv w1 fs1 ops t"
    and BI: "\<And>b. b < ?B \<Longrightarrow> bucket_inv w1 ops b"
    by (simp_all add: writer_inv_def fields)
  have ok: "\<forall>(e, b, t)\<in>set ops. 0 \<le> ?wpe \<and> ?wpe \<le> int (length e)"
    by (rule re(6))
  have rng: "\<forall>(e, b, t)\<in>set ops. 0 \<le> b \<and> b < int (length ?prs)"
    using run_writes_ops_ok [OF run [unfolded s0]] i(2) by (auto simp: i(3) fields)
  have bk: "thread_id (?prs ! b) = - 1 \<and> starting_offset (?prs ! b) = 0
        \<and> total_number (?prs ! b) = 0 \<and> bucket_ops (int b) ops = []
      \<or> 0 \<le> thread_id (?prs ! b) \<and> thread_id (?prs ! b) < w_num_threads w0
        \<and> 0 \<le> starting_offset (?prs ! b) \<and> 0 < total_number (?prs ! b)
        \<and> starting_offset (?prs ! b) + total_number (?prs ! b)
            \<le> int (length (thread_ops (thread_id (?prs ! b)) ops))
        \<and> bucket_ops (int b) ops = take (nat (total_number (?prs ! b)))
               (drop (nat (starting_offset (?prs ! b))) (thread_ops (thread_id (?prs ! b)) ops))"
    if "b < ?B" for b
    using BI [OF that] re(4) by (auto simp: bucket_inv_def Let_def)
  have sizes: "owned_total ?prs (int t) = int (length (thread_ops (int t) ops))" for t
    using BI rng by (intro owned_total_thread_ops) (simp_all add: fields)
  define ne where "ne = (if \<not> w_unsorted w1 then sum_list (map total_number ?prs)
                          else sum_list (w_num_unsorted_edges w1))"
  define fs2 where "fs2 = fs1(EdgesInfo ?p \<mapsto> Text (info_tokens w1 ne))"
  define w2 where "w2 = w1\<lparr>w_files := [], w_cur_bucket := [], w_cur_num_edges := [],
      w_p_rec := [], w_is_opened := False\<rparr>"
  have destroy: "EdgeWriter_destroy s1 = Inr (w2, fs2)"
    unfolding s1 using fields i(1)
    by (simp add: EdgeWriter_destroy_opened w2_def fs2_def ne_def)
  define rest where
    "rest = concat (map (\<lambda>(i, c). [Num (int i), Num c]) (enumerate 0 (w_num_unsorted_edges w1)))"
  have toks: "info_tokens w1 ne =
      [Lit ''kmer_size'', Num (w_kmer_size w0), Lit ''words_per_edge'', Num ?wpe,
       Lit ''num_threads'', Num (w_num_threads w0), Lit ''num_bucket'', Num (int (length ?prs)),
       Lit ''num_edges'', Num ne]
      @ concat (map (\<lambda>(i, pr). [Num (int i), Num (thread_id pr),
                                  Num (starting_offset pr), Num (total_number pr)])
                             (enumerate 0 ?prs))
      @ rest"
    using i(2) by (simp add: info_tokens_def fields rest_def)
  define r1 where "r1 = reader_set_file_prefix ?p (EdgeReader_new r0)"
  define fsz where "fsz = map (\<lambda>t. owned_total ?prs (int t)) [0..<?N]"
  define r2 where "r2 = r1\<lparr>r_kmer_size := w_kmer_size w0, r_words_per_edge := ?wpe,
            r_num_files := w_num_threads w0,
            r_num_buckets := int (length ?prs), r_num_edges := ne,
            r_p_rec := ?prs, r_file_sizes := fsz\<rparr>"
  have r1: "r_file_prefix r1 = ?p" "r_file_sizes r1 = []" "\<not> r_is_opened r1"
    by (simp_all add: r1_def reader_set_file_prefix_def EdgeReader_new_def)
  have ne0: "?prs \<noteq> []" using nb fields(8) by auto
  have ids: "\<forall>pr\<in>set ?prs. 0 \<le> thread_id pr \<and> thread_id pr < w_num_threads w0
      \<or> thread_id pr = - 1 \<and> total_number pr = 0"
  proof
    fix pr assume "pr \<in> set ?prs"
    then obtain b where "b < ?B" "pr = ?prs ! b"
      by (auto simp: in_set_conv_nth fields)
    with bk [of b] show "0 \<le> thread_id pr \<and> thread_id pr < w_num_threads w0
        \<or> thread_id pr = - 1 \<and> total_number pr = 0"
      by auto
  qed
  have info: "read_info r1 fs2 = Inr r2"
    unfolding r2_def fsz_def
    using ne0 nt ids by (intro read_info_sorted [where rest = rest]) (simp_all add: r1 fs2_def toks)
  have files: "fs2 (EdgesFile ?p (int t)) =
      Some (Binary (concat (records_of ?wpe (thread_ops (int t) ops))))" if "t < ?N" for t
    using TI [OF that] by (simp add: thread_inv_def Let_def fields fs2_def)
  have uni': "\<forall>e\<in>set (records_of ?wpe (thread_ops (int t) ops)).
      length e = nat ?wpe \<and> 0 \<le> ?wpe" for t
    using ok by (auto simp: records_of_def thread_ops_def)
  have whole: "take (nat (fsz ! t * ?wpe)) (concat (records_of ?wpe (thread_ops (int t) ops)))
      = concat (records_of ?wpe (thread_ops (int t) ops))" if "t < ?N" for t
  proof (cases "records_of ?wpe (thread_ops (int t) ops) = []")
    case True
    then show ?thesis by simp
  next
    case False
    then obtain x where "x \<in> set (records_of ?wpe (thread_ops (int t) ops))"
      by (cases "records_of ?wpe (thread_ops (int t) ops)") auto
    with uni' have wpe0: "0 \<le> ?wpe" by blast
    have "fsz ! t = int (length (records_of ?wpe (thread_ops (int t) ops)))"
      using that sizes [of t] by (simp add: fsz_def records_of_def)
    moreover have "length (concat (records_of ?wpe (thread_ops (int t) ops)))
        = length (records_of ?wpe (thread_ops (int t) ops)) * nat ?wpe"
      using uni' by (intro length_concat_uniform) blast
    ultimately show ?thesis using wpe0 by (simp add: nat_mult_distrib)
  qed
  have "map_edge_files ?p ?wpe fsz fs2 ?N 0 =
     Inr (map (\<lambda>j. take (nat (fsz ! j * ?wpe))
                  (concat (records_of ?wpe (thread_ops (int j) ops)))) [0..<0 + ?N])"
    using files by (intro map_edge_files_all) (simp_all add: fsz_def)
  then have maps: "map_edge_files ?p ?wpe fsz fs2 ?N 0 =
     Inr (map (\<lambda>j. concat (records_of ?wpe (thread_ops (int j) ops))) [0..<?N])"
    using whole by simp
  define r3 where "r3 = r2\<lparr>r_fds := map (\<lambda>i. EdgesFile ?p (int i)) [0..<?N],
      r_mmaps := map (\<lambda>j. concat (records_of ?wpe (thread_ops (int j) ops))) [0..<?N],
      r_cur_cnt := 0, r_cur_vol := 0, r_cur_bucket := - 1, r_is_opened := True\<rparr>"
  have init3: "EdgeReader_init_files r2 fs2 = Inr r3"
    using maps r1 i(1) ne0
    by (simp add: EdgeReader_init_files_def r2_def r3_def is_unsorted_def)
  have srt: "\<not> is_unsorted r3" using ne0 by (simp add: is_unsorted_def r3_def r2_def)
  have lrecs: "length ?recs = ?N" by (simp add: thread_records_def)
  have prs: "thread_id pr < int (length ?recs) \<and> 0 \<le> starting_offset pr \<and> 0 \<le> total_number pr
      \<and> starting_offset pr + total_number pr \<le> int (length (?recs ! nat (thread_id pr)))"
    if "pr \<in> set ?prs" and own: "0 \<le> thread_id pr" for pr
  proof -
    from that obtain b where b: "b < ?B" "pr = ?prs ! b"
      by (auto simp: in_set_conv_nth fields)
    from bk [OF b(1)] own have k: "thread_id pr < w_num_threads w0"
      "0 \<le> starting_offset pr" "0 < total_number pr"
      "starting_offset pr + total_number pr \<le> int (length (thread_ops (thread_id pr) ops))"
      by (auto simp: b(2))
    have "nat (thread_id pr) < ?N" using k own by (simp add: nat_less_iff)
    then have "?recs ! nat (thread_id pr) = records_of ?wpe (thread_ops (thread_id pr) ops)"
      using own by (simp add: thread_records_def)
    with k own show ?thesis by (simp add: records_of_def lrecs)
  qed
  have maps3: "r_mmaps r3 ! t = concat (?recs ! t)
      \<and> (\<forall>e\<in>set (?recs ! t). length e = nat (r_words_per_edge r3) \<and> 0 \<le> r_words_per_edge r3)"
    if "t < length ?recs" for t
    using that uni' [of t] by (simp add: thread_records_def r3_def r2_def)
  have rinv: "sorted_reader_inv ?recs r3"
    unfolding sorted_reader_inv_def
  proof (intro conjI allI impI ballI)
    show "r_num_buckets r3 = int (length (r_p_rec r3))" by (simp add: r3_def r2_def)
    show "length (r_mmaps r3) = length ?recs" by (simp add: r3_def lrecs)
  next
    fix t assume "t < length ?recs"
    from maps3 [OF this] show "r_mmaps r3 ! t = concat (?recs ! t)" by simp
  next
    fix t e assume "t < length ?recs" "e \<in> set (?recs ! t)"
    with maps3 [of t] show "length e = nat (r_words_per_edge r3)" "0 \<le> r_words_per_edge r3"
      by simp_all
  next
    fix pr assume "pr \<in> set (r_p_rec r3)" and own: "0 \<le> thread_id pr"
    then have m: "pr \<in> set ?prs" by (simp add: r3_def r2_def)
    from prs [OF m own] show "thread_id pr < int (length ?recs)" "0 \<le> starting_offset pr"
      "0 \<le> total_number pr"
      "starting_offset pr + total_number pr \<le> int (length (?recs ! nat (thread_id pr)))"
      by simp_all
  qed (simp_all add: r3_def r2_def)
  have runs: "map (sorted_run ?recs) ?prs
      = map (\<lambda>b. records_of ?wpe (bucket_ops (int b) ops)) [0..<?B]"
  proof (rule nth_equalityI)
    show "length (map (sorted_run ?recs) ?prs)
        = length (map (\<lambda>b. records_of ?wpe (bucket_ops (int b) ops)) [0..<?B])"
      by (simp add: fields)
  next
    fix b assume "b < length (map (sorted_run ?recs) ?prs)"
    then have b: "b < ?B" by (simp add: fields)
    have "sorted_run ?recs (?prs ! b) = records_of ?wpe (bucket_ops (int b) ops)"
    proof (cases "thread_id (?prs ! b) = - 1")
      case True
      with bk [OF b] show ?thesis by (simp add: sorted_run_def records_of_def)
    next
      case False
      with bk [OF b] have k: "0 \<le> thread_id (?prs ! b)"
        "thread_id (?prs ! b) < w_num_threads w0"
        "bucket_ops (int b) ops = take (nat (total_number (?prs ! b)))
               (drop (nat (starting_offset (?prs ! b))) (thread_ops (thread_id (?prs ! b)) ops))"
        by auto
      have "nat (thread_id (?prs ! b)) < ?N" using k by (simp add: nat_less_iff)
      then have "?recs ! nat (thread_id (?prs ! b))
          = records_of ?wpe (thread_ops (thread_id (?prs ! b)) ops)"
        using k by (simp add: thread_records_def)
      then show ?thesis
        using k by (simp add: sorted_run_def records_of_take_drop)
    qed
    then show "map (sorted_run ?recs) ?prs ! b
        = map (\<lambda>b. records_of ?wpe (bucket_ops (int b) ops)) [0..<?B] ! b"
      using b by (simp add: fields)
  qed
  have pend: "sorted_pending ?recs r3 = bucket_records ?wpe ?B ops"
    using ne0 runs by (simp add: sorted_pending_def r3_def r2_def bucket_records_def)
  show ?thesis
    using s1 destroy info [unfolded r1_def] init3 srt rinv pend
    by (intro exI [of _ w1] exI [of _ fs1] exI [of _ w2] exI [of _ fs2] exI [of _ r2]
          exI [of _ r3])
       (simp add: r3_def r2_def)
qed

lemma unowned_iff_no_call:
  assumes "bucket_inv w ops b"
  shows "(thread_id (w_p_rec w ! b) = - 1) = (bucket_ops (int b) ops = [])"
proof (cases "thread_id (w_p_rec w ! b) = - 1")
  case True
  with assms show ?thesis by (auto simp: bucket_inv_def Let_def)
next
  case False
  let ?pr = "w_p_rec w ! b"
  from False assms have o: "0 \<le> starting_offset ?pr" "0 < total_number ?pr"
    "starting_offset ?pr + total_number ?pr \<le> int (length (thread_ops (thread_id ?pr) ops))"
    and bops: "bucket_ops (int b) ops = take (nat (total_number ?pr))
                   (drop (nat (starting_offset ?pr)) (thread_ops (thread_id ?pr) ops))"
    by (auto simp: bucket_inv_def Let_def)
  have "int (length (bucket_ops (int b) ops)) = total_number ?pr"
    unfolding bops using o by simp
  with o(2) have "bucket_ops (int b) ops \<noteq> []" by auto
  with False show ?thesis by simp
qed

text \<open>
  Claim C1. A writer in sorted mode has at least one bucket (a bucket count of zero
  denotes unsorted mode) and at least one thread. It is opened, a history of calls of
  \<open>write\<close> returns, and \<open>destroy()\<close> closes the store. Then a new reader parses the
  metadata file and maps the files, and its \<open>n\<close> first calls of \<open>NextSortedEdge()\<close> return
  the records of bucket 0 in the order they were written, then those of bucket 1, and so
  on, and the null pointer from then on. These records are, as a multiset, the records
  written. A bucket carries the thread id \<open>-1\<close> exactly when no call names it; for such a
  bucket \<open>read_info\<close> adds 0 in front of \<open>file_sizes_\<close> and goes on, the bucket contributes
  no record, and \<open>NextSortedEdge()\<close> passes over it.
\<close>

theorem sorted_round_trip:
  "closed_writer w0 \<and> 0 < w_num_threads w0 \<and> 0 < w_num_buckets w0
     \<and> EdgeWriter_init_files (w0, fs0) = Inr s0 \<and> run_writes ops s0 = Inr (w1, fs1)
   \<longrightarrow>
    (\<exists>w2 fs2 r2 r3. EdgeWriter_destroy (w1, fs1) = Inr (w2, fs2)
       \<and> read_info (reader_set_file_prefix (w_file_prefix w0) (EdgeReader_new r0)) fs2 = Inr r2
       \<and> EdgeReader_init_files r2 fs2 = Inr r3 \<and> r_p_rec r3 = w_p_rec w1
       \<and> (\<forall>n. \<exists>r4. pull_edges NextSortedEdge n r3 =
             Inr (map Some (take n (bucket_records (w_words_per_edge w0)
                                      (nat (w_num_buckets w0)) ops))
                  @ replicate (n - length (bucket_records (w_words_per_edge w0)
                                      (nat (w_num_buckets w0)) ops)) None, r4))
       \<and> mset (bucket_records (w_words_per_edge w0) (nat (w_num_buckets w0)) ops)
           = mset (records_of (w_words_per_edge w0) ops)
       \<and> (\<forall>b < nat (w_num_buckets w0).
             (thread_id (w_p_rec w1 ! b) = - 1) = (bucket_ops (int b) ops = [])))"
proof
  assume "closed_writer w0 \<and> 0 < w_num_threads w0 \<and> 0 < w_num_buckets w0
     \<and> EdgeWriter_init_files (w0, fs0) = Inr s0 \<and> run_writes ops s0 = Inr (w1, fs1)"
  then have cw: "closed_writer w0" and nt: "0 < w_num_threads w0"
    and nb: "0 < w_num_buckets w0" and init: "EdgeWriter_init_files (w0, fs0) = Inr s0"
    and run: "run_writes ops s0 = Inr (w1, fs1)"
    by simp_all
  from sorted_store_read [OF cw init run nt nb, of r0] obtain w2 fs2 r2 r3 where
    r: "EdgeWriter_destroy (w1, fs1) = Inr (w2, fs2)"
      "read_info (reader_set_file_prefix (w_file_prefix w0) (EdgeReader_new r0)) fs2 = Inr r2"
      "EdgeReader_init_files r2 fs2 = Inr r3" "r_p_rec r3 = w_p_rec w1"
    and inv: "sorted_reader_inv
        (thread_records (w_words_per_edge w0) (nat (w_num_threads w0)) ops) r3"
    and pend: "sorted_pending (thread_records (w_words_per_edge w0) (nat (w_num_threads w0)) ops) r3
          = bucket_records (w_words_per_edge w0) (nat (w_num_buckets w0)) ops"
    by auto
  obtain w fs where s0: "s0 = (w, fs)" by (cases s0)
  note i = init_files_result [OF cw init [unfolded s0]]
  note re = reached_inv [OF cw init run]
  have len: "length (w_p_rec w1) = nat (w_num_buckets w0)" using re(5) by simp
  have "\<forall>(e, b, t)\<in>set ops. 0 \<le> b \<and> b < int (nat (w_num_buckets w0))"
    using run_writes_ops_ok [OF run [unfolded s0]] i(2) by (auto simp: i(3))
  then have ms: "mset (bucket_records (w_words_per_edge w0) (nat (w_num_buckets w0)) ops)
           = mset (records_of (w_words_per_edge w0) ops)"
    by (rule mset_bucket_records)
  have un: "\<forall>b < nat (w_num_buckets w0).
      (thread_id (w_p_rec w1 ! b) = - 1) = (bucket_ops (int b) ops = [])"
  proof (intro allI impI)
    fix b assume "b < nat (w_num_buckets w0)"
    with re(1) len have "bucket_inv w1 ops b" by (simp add: writer_inv_def)
    then show "(thread_id (w_p_rec w1 ! b) = - 1) = (bucket_ops (int b) ops = [])"
      by (rule unowned_iff_no_call)
  qed
  from pull_sorted_spec [OF inv] pend r ms un
  show "\<exists>w2 fs2 r2 r3. EdgeWriter_destroy (w1, fs1) = Inr (w2, fs2)
       \<and> read_info (reader_set_file_prefix (w_file_prefix w0) (EdgeReader_new r0)) fs2 = Inr r2
       \<and> EdgeReader_init_files r2 fs2 = Inr r3 \<and> r_p_rec r3 = w_p_rec w1
       \<and> (\<forall>n. \<exists>r4. pull_edges NextSortedEdge n r3 =
             Inr (map Some (take n (bucket_records (w_words_per_edge w0)
                                      (nat (w_num_buckets w0)) ops))
                  @ replicate (n - length (bucket_records (w_words_per_edge w0)
                                      (nat (w_num_buckets w0)) ops)) None, r4))
       \<and> mset (bucket_records (w_words_per_edge w0) (nat (w_num_buckets w0)) ops)
           = mset (records_of (w_words_per_edge w0) ops)
       \<and> (\<forall>b < nat (w_num_buckets w0).
             (thread_id (w_p_rec w1 ! b) = - 1) = (bucket_ops (int b) ops = []))"
    by (intro exI [of _ w2] exI [of _ fs2] exI [of _ r2] exI [of _ r3]) simp
qed

theorem sorted_round_trip_witness:
  "closed_writer ex_sorted_writer \<and> 0 < w_num_threads ex_sorted_writer
   \<and> 0 < w_num_buckets ex_sorted_writer
   \<and> EdgeWriter_init_files (ex_sorted_writer, Map.empty) = Inr ex_sorted_opened
   \<and> (\<exists>w1 fs1 w2 fs2 r2 r3 r4.
         run_writes [([1, 2], 0, 0)] ex_sorted_opened = Inr (w1, fs1)
         \<and> map thread_id (w_p_rec w1) = [0, - 1, - 1]
         \<and> EdgeWriter_destroy (w1, fs1) = Inr (w2, fs2)
         \<and> read_info (reader_set_file_prefix ''p'' (EdgeReader_new ex_open_reader)) fs2 = Inr r2
         \<and> EdgeReader_init_files r2 fs2 = Inr r3
         \<and> pull_edges NextSortedEdge 3 r3 = Inr ([Some [1, 2], None, None], r4))
   \<and> (\<exists>w1 fs1 w2 fs2 r2 r3 r4.
         run_writes ex_sorted_ops ex_sorted_opened = Inr (w1, fs1)
         \<and> EdgeWriter_destroy (w1, fs1) = Inr (w2, fs2)
         \<and> read_info (reader_set_file_prefix ''p'' (EdgeReader_new ex_open_reader)) fs2 = Inr r2
         \<and> EdgeReader_init_files r2 fs2 = Inr r3
         \<and> pull_edges NextSortedEdge 5 r3
             = Inr ([Some [1, 2], Some [3, 4], Some [7, 8], Some [5, 6], None], r4))"
proof -
  have init: "EdgeWriter_init_files (ex_sorted_writer, Map.empty) = Inr ex_sorted_opened"
    unfolding ex_sorted_opened_def by (rule ex_sorted_init)
  have nt: "0 < w_num_threads ex_sorted_writer" and nb: "0 < w_num_buckets ex_sorted_writer"
    by (simp_all add: ex_sorted_closed)
  let ?one = "[([1, 2 :: 32 word], 0 :: int, 0 :: int)]"
  have "\<exists>w1 fs1. run_writes ?one ex_sorted_opened = Inr (w1, fs1)
      \<and> map thread_id (w_p_rec w1) = [0, - 1, - 1]"
    by (simp add: ex_sorted_opened_def ex_sorted_writer_def EdgeWriter_new_def
        set_num_buckets_def set_num_threads_def set_file_prefix_def
        EdgeWriter_write_def at_idx_def fwrite_def open_edge_files_def PartitionRecord_new_def
        upt_rec numeral_2_eq_2)
  then obtain w1 fs1 where run1: "run_writes ?one ex_sorted_opened = Inr (w1, fs1)"
    and own1: "map thread_id (w_p_rec w1) = [0, - 1, - 1]"
    by auto
  have h1: "closed_writer ex_sorted_writer \<and> 0 < w_num_threads ex_sorted_writer
      \<and> 0 < w_num_buckets ex_sorted_writer
      \<and> EdgeWriter_init_files (ex_sorted_writer, Map.empty) = Inr ex_sorted_opened
      \<and> run_writes ?one ex_sorted_opened = Inr (w1, fs1)"
    using ex_sorted_closed(1) nt nb init run1 by simp
  have recs1: "bucket_records 2 3 ?one = [[1, 2]]"
    by (simp add: bucket_records_def bucket_ops_def records_of_def upt_rec numeral_3_eq_3)
  from sorted_round_trip [of ex_sorted_writer Map.empty ex_sorted_opened ?one w1 fs1
      ex_open_reader, THEN mp, OF h1]
  obtain w2 fs2 r2 r3 where
    r: "EdgeWriter_destroy (w1, fs1) = Inr (w2, fs2)"
      "read_info (reader_set_file_prefix ''p'' (EdgeReader_new ex_open_reader)) fs2 = Inr r2"
      "EdgeReader_init_files r2 fs2 = Inr r3"
    and pull: "\<forall>n. \<exists>r4. pull_edges NextSortedEdge n r3 =
            Inr (map Some (take n (bucket_records 2 3 ?one))
                 @ replicate (n - length (bucket_records 2 3 ?one)) None, r4)"
    unfolding ex_sorted_closed by auto
  from pull [rule_format, of 3] obtain r4 where
    p3: "pull_edges NextSortedEdge 3 r3 = Inr ([Some [1, 2], None, None], r4)"
    unfolding recs1 by (auto simp: numeral_3_eq_3)
  from ex_sorted_run obtain v1 gs1 where
    run2: "run_writes ex_sorted_ops ex_sorted_opened = Inr (v1, gs1)"
    by blast
  have h2: "closed_writer ex_sorted_writer \<and> 0 < w_num_threads ex_sorted_writer
      \<and> 0 < w_num_buckets ex_sorted_writer
      \<and> EdgeWriter_init_files (ex_sorted_writer, Map.empty) = Inr ex_sorted_opened
      \<and> run_writes ex_sorted_ops ex_sorted_opened = Inr (v1, gs1)"
    using ex_sorted_closed(1) nt nb init run2 by simp
  have recs2: "bucket_records 2 3 ex_sorted_ops = [[1, 2], [3, 4], [7, 8], [5, 6]]"
    by (simp add: bucket_records_def bucket_ops_def records_of_def ex_sorted_ops_def
        upt_rec numeral_3_eq_3)
  from sorted_round_trip [of ex_sorted_writer Map.empty ex_sorted_opened ex_sorted_ops v1 gs1
      ex_open_reader, THEN mp, OF h2]
  obtain v2 gs2 q2 q3 where
    q: "EdgeWriter_destroy (v1, gs1) = Inr (v2, gs2)"
      "read_info (reader_set_file_prefix ''p'' (EdgeReader_new ex_open_reader)) gs2 = Inr q2"
      "EdgeReader_init_files q2 gs2 = Inr q3"
    and pull2: "\<forall>n. \<exists>r4. pull_edges NextSortedEdge n q3 =
            Inr (map Some (take n (bucket_records 2 3 ex_sorted_ops))
                 @ replicate (n - length (bucket_records 2 3 ex_sorted_ops)) None, r4)"
    unfolding ex_sorted_closed by auto
  from pull2 [rule_format, of 5] obtain q4 where
    p5: "pull_edges NextSortedEdge 5 q3
         = Inr ([Some [1, 2], Some [3, 4], Some [7, 8], Some [5, 6], None], q4)"
    unfolding recs2 by auto
  have c1: "\<exists>w1 fs1 w2 fs2 r2 r3 r4.
         run_writes [([1, 2], 0, 0)] ex_sorted_opened = Inr (w1, fs1)
         \<and> map thread_id (w_p_rec w1) = [0, - 1, - 1]
         \<and> EdgeWriter_destroy (w1, fs1) = Inr (w2, fs2)
         \<and> read_info (reader_set_file_prefix ''p'' (EdgeReader_new ex_open_reader)) fs2 = Inr r2
         \<and> EdgeReader_init_files r2 fs2 = Inr r3
         \<and> pull_edges NextSortedEdge 3 r3 = Inr ([Some [1, 2], None, None], r4)"
    using run1 own1 r p3
    by (intro exI [of _ w1] exI [of _ fs1] exI [of _ w2] exI [of _ fs2] exI [of _ r2]
          exI [of _ r3] exI [of _ r4]) simp
  have c2: "\<exists>w1 fs1 w2 fs2 r2 r3 r4.
         run_writes ex_sorted_ops ex_sorted_opened = Inr (w1, fs1)
         \<and> EdgeWriter_destroy (w1, fs1) = Inr (w2, fs2)
         \<and> read_info (reader_set_file_prefix ''p'' (EdgeReader_new ex_open_reader)) fs2 = Inr r2
         \<and> EdgeReader_init_files r2 fs2 = Inr r3
         \<and> pull_edges NextSortedEdge 5 r3
             = Inr ([Some [1, 2], Some [3, 4], Some [7, 8], Some [5, 6], None], r4)"
    using run2 q p5
    by (intro exI [of _ v1] exI [of _ gs1] exI [of _ v2] exI [of _ gs2] exI [of _ q2]
          exI [of _ q3] exI [of _ q4]) simp
  from ex_sorted_closed(1) nt nb init c1 c2 show ?thesis by (intro conjI)
qed

section \<open>Properties of the unitig graph\<close>

lemma ReverseComplement_involution [simp]:
  "ReverseComplement (ReverseComplement a) = a"
  by (simp add: ReverseComplement_def xor.assoc)

lemma ReverseComplement_fields [simp]:
  "a_vertex (ReverseComplement a) = a_vertex a" "a_id (ReverseComplement a) = a_id a"
  by (simp_all add: ReverseComplement_def)

lemma write_cache_fields:
  assumes "write_cache g i s d = Inr g'"
  shows "sdbg g' = sdbg g" "id_map g' = id_map g" "length (vertices g') = length (vertices g)"
    "count_cache_used g' = count_cache_used g" "count_cache_missed g' = count_cache_missed g"
  using assms by (auto simp: write_cache_def bind_err_eq_Inr)

lemma adapter_info_write_cache:
  assumes "write_cache g i s d = Inr g'"
  shows "adapter_info g' a =
     map_sum id (\<lambda>si. if a_vertex a = Some i \<and> a_strand a = s
                       then si\<lparr>si_cached_out_degree := Some d\<rparr> else si)
       (adapter_info g a)"
proof -
  from assms obtain v v' where v: "i < length (vertices g)" "v = vertices g ! i"
    and v': "set_cached_outdegree v s d = Inr v'"
    and g': "g' = g\<lparr>vertices := (vertices g)[i := v']\<rparr>"
    by (auto simp: write_cache_def bind_err_eq_Inr at_idx_eq_Inr)
  show ?thesis
  proof (cases "a_vertex a")
    case None
    then show ?thesis by (simp add: adapter_info_def)
  next
    case (Some j)
    show ?thesis
    proof (cases "j < length (vertices g)")
      case False
      then show ?thesis by (simp add: adapter_info_def Some g' at_idx_def)
    next
      case True
      then show ?thesis
        using v v'
        by (auto simp: adapter_info_def Some g' at_idx_def nth_list_update strand_info_def
            set_cached_outdegree_def split: if_splits)
    qed
  qed
qed

lemma write_cache_frame:
  assumes "write_cache g i s d = Inr g'"
  shows "adapter_begin g' a = adapter_begin g a" "adapter_end g' a = adapter_end g a"
  unfolding adapter_begin_def adapter_end_def adapter_info_write_cache [OF assms]
  by (cases "adapter_info g a"; simp)+

lemma cached_write_cache:
  assumes "write_cache g i s d = Inr g'"
  shows "cached_out_degree g' a =
     (if a_vertex a = Some i \<and> a_strand a = s
      then map_sum id (\<lambda>c. Some d) (cached_out_degree g a) else cached_out_degree g a)"
  unfolding cached_out_degree_def adapter_info_write_cache [OF assms]
  by (cases "adapter_info g a"; simp)

lemma GetNextAdapters_Inr:
  assumes "GetNextAdapters g a out = Inr (d, outs, a', g')"
  obtains e c where "a' = a" "adapter_end g a = Inr e"
    "d = int (length (OutgoingEdges (sdbg g) e))" "d \<le> 4"
    "cached_out_degree g a = Inr c"
    "c \<noteq> None \<Longrightarrow> g' = g"
    "c = None \<Longrightarrow> write_cache g (a_id a) (a_strand a) d = Inr g'"
    "out \<Longrightarrow> \<exists>as. make_adapters g (OutgoingEdges (sdbg g) e) = Inr as \<and> outs = Some as"
    "\<not> out \<Longrightarrow> outs = None"
proof -
  from assms obtain e where e: "adapter_end g a = Inr e"
    and r1: "(let next_starts = OutgoingEdges (sdbg g) e; degree = int (length next_starts) in
     if 4 < degree then Inl OutOfBounds
     else
       bind_err (if out then bind_err (make_adapters g next_starts) (\<lambda>as. Inr (Some as))
                 else Inr None) (\<lambda>outs.
       bind_err (cached_out_degree g a) (\<lambda>c.
       bind_err (if c = None then write_cache g (a_id a) (a_strand a) degree
                 else Inr g) (\<lambda>g'.
       Inr (degree, outs, a, g'))))) = Inr (d, outs, a', g')"
    unfolding GetNextAdapters_def bind_err_eq_Inr by blast
  let ?ns = "OutgoingEdges (sdbg g) e"
  let ?deg = "int (length ?ns)"
  from r1 have le: "?deg \<le> 4"
    by (cases "4 < ?deg") (simp_all add: Let_def)
  with r1 obtain outs0 where o: "(if out then bind_err (make_adapters g ?ns) (\<lambda>as. Inr (Some as))
                 else Inr None) = Inr outs0"
    and r2: "bind_err (cached_out_degree g a) (\<lambda>c.
       bind_err (if c = None then write_cache g (a_id a) (a_strand a) ?deg
                 else Inr g) (\<lambda>g'.
       Inr (?deg, outs0, a, g'))) = Inr (d, outs, a', g')"
    by (simp add: Let_def bind_err_eq_Inr) blast
  from r2 obtain c where c: "cached_out_degree g a = Inr c"
    and r3: "bind_err (if c = None then write_cache g (a_id a) (a_strand a) ?deg
                 else Inr g) (\<lambda>g'.
       Inr (?deg, outs0, a, g')) = Inr (d, outs, a', g')"
    unfolding bind_err_eq_Inr by blast
  from r3 obtain g0 where w: "(if c = None then write_cache g (a_id a) (a_strand a) ?deg
                 else Inr g) = Inr g0"
    and r4: "(?deg, outs0, a, g0) = (d, outs, a', g')"
    unfolding bind_err_eq_Inr by auto
  from r4 have eqs: "d = ?deg" "outs = outs0" "a' = a" "g' = g0" by simp_all
  show ?thesis
  proof (rule that [of e c])
    show "a' = a" by (rule eqs)
    show "adapter_end g a = Inr e" by (rule e)
    show "d = ?deg" by (rule eqs)
    show "d \<le> 4" using le eqs by simp
    show "cached_out_degree g a = Inr c" by (rule c)
    show "g' = g" if "c \<noteq> None" using that w eqs by (cases c) simp_all
    show "write_cache g (a_id a) (a_strand a) d = Inr g'" if "c = None"
      using that w eqs by simp
    show "\<exists>as. make_adapters g ?ns = Inr as \<and> outs = Some as" if out
      using that o eqs by (auto simp: bind_err_eq_Inr)
    show "outs = None" if "\<not> out" using that o eqs by simp
  qed
qed

lemma GetNextAdapters_frame:
  assumes "GetNextAdapters g a out = Inr (d, outs, a', g')"
  shows "a' = a" "adapter_begin g' b = adapter_begin g b" "adapter_end g' b = adapter_end g b"
    "sdbg g' = sdbg g" "id_map g' = id_map g"
proof -
  from assms obtain c :: "int option" where a: "a' = a"
    and c: "c \<noteq> None \<Longrightarrow> g' = g" "c = None \<Longrightarrow> write_cache g (a_id a) (a_strand a) d = Inr g'"
    by (rule GetNextAdapters_Inr) blast
  show "a' = a" by (rule a)
  show "adapter_begin g' b = adapter_begin g b"
    using c write_cache_frame(1) [of g "a_id a" "a_strand a" d g' b] by (cases "c = None") simp_all
  show "adapter_end g' b = adapter_end g b"
    using c write_cache_frame(2) [of g "a_id a" "a_strand a" d g' b] by (cases "c = None") simp_all
  show "sdbg g' = sdbg g"
    using c write_cache_fields(1) [of g "a_id a" "a_strand a" d g'] by (cases "c = None") simp_all
  show "id_map g' = id_map g"
    using c write_cache_fields(2) [of g "a_id a" "a_strand a" d g'] by (cases "c = None") simp_all
qed

lemma adapter_info_counters [simp]:
  "adapter_info (g\<lparr>count_cache_used := u\<rparr>) a = adapter_info g a"
  "adapter_info (g\<lparr>count_cache_missed := m\<rparr>) a = adapter_info g a"
  by (cases "a_vertex a"; simp add: adapter_info_def)+

lemma accessors_counters [simp]:
  "adapter_begin (g\<lparr>count_cache_used := u\<rparr>) a = adapter_begin g a"
  "adapter_begin (g\<lparr>count_cache_missed := m\<rparr>) a = adapter_begin g a"
  "adapter_end (g\<lparr>count_cache_used := u\<rparr>) a = adapter_end g a"
  "adapter_end (g\<lparr>count_cache_missed := m\<rparr>) a = adapter_end g a"
  "cached_out_degree (g\<lparr>count_cache_used := u\<rparr>) a = cached_out_degree g a"
  "cached_out_degree (g\<lparr>count_cache_missed := m\<rparr>) a = cached_out_degree g a"
  by (simp_all add: adapter_begin_def adapter_end_def cached_out_degree_def)

lemma OutDegree_Inr:
  assumes "OutDegree g a = Inr (d, a', g')"
  obtains (hit) "cached_out_degree g a = Inr (Some d)" "a' = a"
      "g' = g\<lparr>count_cache_used := count_cache_used g + 1\<rparr>"
  | (miss) outs where "cached_out_degree g a = Inr None"
      "GetNextAdapters (g\<lparr>count_cache_missed := count_cache_missed g + 1\<rparr>) a False
         = Inr (d, outs, a', g')"
proof -
  from assms obtain c where c: "cached_out_degree g a = Inr c"
    and r: "(case c of
       Some d \<Rightarrow> Inr (d, a, g\<lparr>count_cache_used := count_cache_used g + 1\<rparr>)
     | None \<Rightarrow>
         bind_err (GetNextAdapters (g\<lparr>count_cache_missed := count_cache_missed g + 1\<rparr>)
                     a False) (\<lambda>(degree, outs, adapter1, g').
         Inr (degree, adapter1, g'))) = Inr (d, a', g')"
    unfolding OutDegree_def bind_err_eq_Inr by blast
  show ?thesis
  proof (cases c)
    case None
    with r obtain x where x: "GetNextAdapters (g\<lparr>count_cache_missed := count_cache_missed g + 1\<rparr>)
                     a False = Inr x"
      and y: "(case x of (degree, outs, adapter1, g') \<Rightarrow> Inr (degree, adapter1, g'))
          = (Inr (d, a', g') :: error + int \<times> Adapter \<times> UnitigGraph)"
      by (auto simp: bind_err_eq_Inr)
    obtain d0 outs a0 g0 where "x = (d0, outs, a0, g0)" by (cases x)
    with x y None c show ?thesis by (intro miss [of outs]) simp_all
  next
    case (Some d0)
    with r c show ?thesis by (intro hit) simp_all
  qed
qed

lemma OutDegree_frame:
  assumes "OutDegree g a = Inr (d, a', g')"
  shows "a' = a" "adapter_begin g' b = adapter_begin g b" "adapter_end g' b = adapter_end g b"
    "sdbg g' = sdbg g"
proof -
  from assms have "a' = a \<and> adapter_begin g' b = adapter_begin g b
      \<and> adapter_end g' b = adapter_end g b \<and> sdbg g' = sdbg g"
  proof (cases rule: OutDegree_Inr)
    case hit
    then show ?thesis by simp
  next
    case (miss outs)
    from GetNextAdapters_frame(1,4) [OF miss(2)] GetNextAdapters_frame(2,3) [OF miss(2), of b]
    show ?thesis by simp
  qed
  then show "a' = a" "adapter_begin g' b = adapter_begin g b"
    "adapter_end g' b = adapter_end g b" "sdbg g' = sdbg g"
    by simp_all
qed

lemma InDegree_Inr:
  assumes "InDegree g a = Inr (d, a', g')"
  shows "OutDegree g (ReverseComplement a) = Inr (d, ReverseComplement a, g')" "a' = a"
proof -
  from assms obtain x where x: "OutDegree g (ReverseComplement a) = Inr x"
    and y: "(case x of (degree, adapter1, g') \<Rightarrow> Inr (degree, ReverseComplement adapter1, g'))
        = (Inr (d, a', g') :: error + int \<times> Adapter \<times> UnitigGraph)"
    unfolding InDegree_def bind_err_eq_Inr by blast
  obtain d0 a0 g0 where x0: "x = (d0, a0, g0)" by (cases x)
  from OutDegree_frame(1) [OF x [unfolded x0]] have "a0 = ReverseComplement a" .
  with x y x0 show "OutDegree g (ReverseComplement a) = Inr (d, ReverseComplement a, g')"
    "a' = a"
    by simp_all
qed

lemma GetPrevAdapters_Inr:
  assumes "GetPrevAdapters g a out = Inr (d, outs, a', g')"
  obtains outs0 where
    "GetNextAdapters g (ReverseComplement a) out = Inr (d, outs0, ReverseComplement a, g')"
    "outs = map_option (map ReverseComplement) outs0" "a' = a"
proof -
  from assms obtain x where x: "GetNextAdapters g (ReverseComplement a) out = Inr x"
    and y: "(case x of (degree, outs, adapter1, g') \<Rightarrow>
        Inr (degree, map_option (map ReverseComplement) outs, ReverseComplement adapter1, g'))
        = (Inr (d, outs, a', g') :: error + int \<times> Adapter list option \<times> Adapter \<times> UnitigGraph)"
    unfolding GetPrevAdapters_def bind_err_eq_Inr by blast
  obtain d0 outs0 a0 g0 where x0: "x = (d0, outs0, a0, g0)" by (cases x)
  from GetNextAdapters_frame(1) [OF x [unfolded x0]] have "a0 = ReverseComplement a" .
  with x y x0 show ?thesis by (intro that [of outs0]) simp_all
qed

lemma NextSimplePathAdapter_Inr:
  assumes "NextSimplePathAdapter g a = Inr (ret, a', g')"
  shows "a' = a" "g' = g"
  using assms unfolding NextSimplePathAdapter_def Let_def
  by (auto simp: bind_err_eq_Inr split: if_splits)

lemma PrevSimplePathAdapter_Inr:
  assumes "PrevSimplePathAdapter g a = Inr (ret, a', g')"
  shows "a' = a" "g' = g"
proof -
  from assms obtain x where x: "NextSimplePathAdapter g (ReverseComplement a) = Inr x"
    and y: "(case x of (ret, adapter1, g') \<Rightarrow>
        Inr (ReverseComplement ret, ReverseComplement adapter1, g'))
        = (Inr (ret, a', g') :: error + Adapter \<times> Adapter \<times> UnitigGraph)"
    unfolding PrevSimplePathAdapter_def bind_err_eq_Inr by blast
  obtain r0 a0 g0 where x0: "x = (r0, a0, g0)" by (cases x)
  from NextSimplePathAdapter_Inr [OF x [unfolded x0]] y x0
  show "a' = a" "g' = g" by simp_all
qed

text \<open>
  Claim C9. \<open>GetPrevAdapters\<close>, \<open>InDegree\<close> and \<open>PrevSimplePathAdapter\<close> reverse-complement
  their argument, run the forward operation and reverse-complement the argument back.
  When they return, the adapter is the one that was passed (same vertex reference,
  strand and id), and its begin and end in the graph after the call are those before
  the call; the strand flip is an involution.
\<close>

theorem reverse_operations_restore_adapter:
  "(GetPrevAdapters g a out = Inr (d, outs, a1, g1) \<longrightarrow>
      a1 = a \<and> adapter_begin g1 a = adapter_begin g a \<and> adapter_end g1 a = adapter_end g a)
   \<and> (InDegree g a = Inr (d', a2, g2) \<longrightarrow>
      a2 = a \<and> adapter_begin g2 a = adapter_begin g a \<and> adapter_end g2 a = adapter_end g a)
   \<and> (PrevSimplePathAdapter g a = Inr (ret, a3, g3) \<longrightarrow>
      a3 = a \<and> adapter_begin g3 a = adapter_begin g a \<and> adapter_end g3 a = adapter_end g a)
   \<and> ReverseComplement (ReverseComplement a) = a"
proof (intro conjI impI)
  assume p: "GetPrevAdapters g a out = Inr (d, outs, a1, g1)"
  then obtain outs0 where
    n: "GetNextAdapters g (ReverseComplement a) out = Inr (d, outs0, ReverseComplement a, g1)"
    and a1: "a1 = a"
    by (rule GetPrevAdapters_Inr)
  show "a1 = a" by (rule a1)
  show "adapter_begin g1 a = adapter_begin g a" by (rule GetNextAdapters_frame(2) [OF n])
  show "adapter_end g1 a = adapter_end g a" by (rule GetNextAdapters_frame(3) [OF n])
next
  assume i: "InDegree g a = Inr (d', a2, g2)"
  note o = InDegree_Inr [OF i]
  show "a2 = a" by (rule o(2))
  show "adapter_begin g2 a = adapter_begin g a" by (rule OutDegree_frame(2) [OF o(1)])
  show "adapter_end g2 a = adapter_end g a" by (rule OutDegree_frame(3) [OF o(1)])
next
  assume p: "PrevSimplePathAdapter g a = Inr (ret, a3, g3)"
  note o = PrevSimplePathAdapter_Inr [OF p]
  show "a3 = a" by (rule o(1))
  show "adapter_begin g3 a = adapter_begin g a" "adapter_end g3 a = adapter_end g a"
    by (simp_all add: o(2))
next
  show "ReverseComplement (ReverseComplement a) = a" by simp
qed

subsection \<open>Degrees, the cache and constructed adapters\<close>

text \<open>
  Every adapter that the graph builds refers to the vertex of its id, and reverse
  complementing keeps the reference.
\<close>

lemma MakeVertexAdapter_vertex:
  "MakeVertexAdapter g i s = Inr a \<Longrightarrow> a_vertex a = Some (a_id a)"
  by (auto simp: MakeVertexAdapter_def bind_err_eq_Inr)

lemma ReverseComplement_vertex:
  "a_vertex (ReverseComplement a) = a_vertex a" "a_id (ReverseComplement a) = a_id a"
  by (simp_all add: ReverseComplement_def)

lemma MakeVertexAdapterWithSdbgId_vertex:
  "MakeVertexAdapterWithSdbgId g x = Inr a \<Longrightarrow> a_vertex a = Some (a_id a)"
  by (auto simp: MakeVertexAdapterWithSdbgId_def bind_err_eq_Inr ReverseComplement_vertex
      dest: MakeVertexAdapter_vertex split: option.splits if_splits)

lemma make_adapters_vertex:
  "make_adapters g xs = Inr as \<Longrightarrow> \<forall>a\<in>set as. a_vertex a = Some (a_id a)"
proof (induction xs arbitrary: as)
  case Nil
  then show ?case by simp
next
  case (Cons x xs)
  then obtain a as' where "MakeVertexAdapterWithSdbgId g x = Inr a"
    "make_adapters g xs = Inr as'" "as = a # as'"
    by (auto simp: bind_err_eq_Inr)
  with Cons.IH [of as'] MakeVertexAdapterWithSdbgId_vertex [of g x a] show ?case by simp
qed

lemma adapter_info_cong:
  "a_vertex b = a_vertex a \<Longrightarrow> a_strand b = a_strand a \<Longrightarrow> adapter_info g b = adapter_info g a"
  by (cases "a_vertex a") (simp_all add: adapter_info_def)

lemma write_cache_again:
  assumes "write_cache g i s d = Inr g'" and "length (vertices g2) = length (vertices g)"
  shows "\<exists>g3. write_cache g2 i s d2 = Inr g3"
  using assms
  by (auto simp: write_cache_def bind_err_eq_Inr at_idx_eq_Inr set_cached_outdegree_def
      split: if_splits)

lemma GetNextAdapters_no_buffer:
  assumes "adapter_end g a = Inr e" and "int (length (OutgoingEdges (sdbg g) e)) \<le> 4"
    and "cached_out_degree g a = Inr None"
    and "write_cache g (a_id a) (a_strand a) (int (length (OutgoingEdges (sdbg g) e))) = Inr g'"
  shows "GetNextAdapters g a False = Inr (int (length (OutgoingEdges (sdbg g) e)), None, a, g')"
  using assms by (simp add: GetNextAdapters_def Let_def)

lemma OutDegree_miss:
  assumes "cached_out_degree g a = Inr None" and "OutDegree g a = Inr (d, a', g')"
  obtains e where "adapter_end g a = Inr e" "d = int (length (OutgoingEdges (sdbg g) e))"
    "d \<le> 4"
    "write_cache (g\<lparr>count_cache_missed := count_cache_missed g + 1\<rparr>) (a_id a) (a_strand a) d
       = Inr g'"
  using assms(2)
proof (cases rule: OutDegree_Inr)
  case hit
  with assms(1) show ?thesis by simp
next
  case (miss outs)
  from miss(2) obtain e and c :: "int option" where
    e: "adapter_end (g\<lparr>count_cache_missed := count_cache_missed g + 1\<rparr>) a = Inr e"
    and d: "d = int (length (OutgoingEdges
              (sdbg (g\<lparr>count_cache_missed := count_cache_missed g + 1\<rparr>)) e))" "d \<le> 4"
    and c: "cached_out_degree (g\<lparr>count_cache_missed := count_cache_missed g + 1\<rparr>) a = Inr c"
    and w: "c = None \<Longrightarrow>
       write_cache (g\<lparr>count_cache_missed := count_cache_missed g + 1\<rparr>) (a_id a) (a_strand a) d
         = Inr g'"
    by (rule GetNextAdapters_Inr) blast
  from c assms(1) have "c = None" by simp
  with e d w show ?thesis by (intro that [of e]) simp_all
qed

lemma OutDegree_hit:
  "cached_out_degree g a = Inr (Some d) \<Longrightarrow>
   OutDegree g a = Inr (d, a, g\<lparr>count_cache_used := count_cache_used g + 1\<rparr>)"
  by (simp add: OutDegree_def)

lemma OutDegree_stable:
  assumes "OutDegree g a = Inr (d, a1, g1)"
  shows "\<exists>g2. OutDegree g1 a = Inr (d, a, g2)"
  using assms
proof (cases rule: OutDegree_Inr)
  case hit
  then have "cached_out_degree g1 a = Inr (Some d)" by simp
  from OutDegree_hit [OF this] show ?thesis by blast
next
  case (miss outs)
  let ?gm = "g\<lparr>count_cache_missed := count_cache_missed g + 1\<rparr>"
  from miss(1) assms obtain e where e: "adapter_end g a = Inr e"
    and d: "d = int (length (OutgoingEdges (sdbg g) e))" "d \<le> 4"
    and w: "write_cache ?gm (a_id a) (a_strand a) d = Inr g1"
    by (rule OutDegree_miss)
  have c1: "cached_out_degree g1 a =
      (if a_vertex a = Some (a_id a) then Inr (Some d) else Inr None)"
    using cached_write_cache [OF w, of a] miss(1) by simp
  show ?thesis
  proof (cases "a_vertex a = Some (a_id a)")
    case True
    with c1 have "cached_out_degree g1 a = Inr (Some d)" by simp
    from OutDegree_hit [OF this] show ?thesis by blast
  next
    case False
    let ?g1m = "g1\<lparr>count_cache_missed := count_cache_missed g1 + 1\<rparr>"
    from False c1 have none: "cached_out_degree ?g1m a = Inr None" by simp
    have e1: "adapter_end ?g1m a = Inr e"
      using write_cache_frame(2) [OF w, of a] e by simp
    have s1: "sdbg ?g1m = sdbg g"
      using write_cache_fields(1) [OF w] by simp
    have "length (vertices ?g1m) = length (vertices ?gm)"
      using write_cache_fields(3) [OF w] by simp
    from write_cache_again [OF w this] obtain g3 where
      "write_cache ?g1m (a_id a) (a_strand a) d = Inr g3"
      by blast
    with e1 s1 d none have "GetNextAdapters ?g1m a False = Inr (d, None, a, g3)"
      using GetNextAdapters_no_buffer [of ?g1m a e g3] by simp
    moreover have "cached_out_degree g1 a = Inr None" using False c1 by simp
    ultimately have "OutDegree g1 a = Inr (d, a, g3)"
      by (simp add: OutDegree_def)
    then show ?thesis by blast
  qed
qed

text \<open>
  Claim C6. For every adapter \<open>A\<close>, \<open>OutDegree(A)\<close> equals \<open>InDegree\<close> of the reverse
  complement of \<open>A\<close>, and \<open>InDegree(A)\<close> equals \<open>OutDegree\<close> of the reverse complement. On
  one graph state the two calls give the same degree and leave the same graph (or fail
  alike); and when the first call has returned, the second call on the graph the first
  one left returns the same degree.
\<close>

theorem degree_symmetry:
  "map_sum id (\<lambda>(d, a', g'). (d, g')) (InDegree g (ReverseComplement a))
     = map_sum id (\<lambda>(d, a', g'). (d, g')) (OutDegree g a)
   \<and> map_sum id (\<lambda>(d, a', g'). (d, g')) (OutDegree g (ReverseComplement a))
     = map_sum id (\<lambda>(d, a', g'). (d, g')) (InDegree g a)
   \<and> (OutDegree g a = Inr (d, a1, g1) \<longrightarrow>
        (\<exists>a2 g2. InDegree g1 (ReverseComplement a1) = Inr (d, a2, g2)))
   \<and> (InDegree g a = Inr (d', a3, g3) \<longrightarrow>
        (\<exists>a4 g4. OutDegree g3 (ReverseComplement a3) = Inr (d', a4, g4)))"
proof (intro conjI impI)
  have in_out: "map_sum id (\<lambda>(d, a', g'). (d, g')) (InDegree g b)
     = map_sum id (\<lambda>(d, a', g'). (d, g')) (OutDegree g (ReverseComplement b))" for b
    by (cases "OutDegree g (ReverseComplement b)") (auto simp: InDegree_def)
  show "map_sum id (\<lambda>(d, a', g'). (d, g')) (InDegree g (ReverseComplement a))
     = map_sum id (\<lambda>(d, a', g'). (d, g')) (OutDegree g a)"
    using in_out [of "ReverseComplement a"] by simp
  show "map_sum id (\<lambda>(d, a', g'). (d, g')) (OutDegree g (ReverseComplement a))
     = map_sum id (\<lambda>(d, a', g'). (d, g')) (InDegree g a)"
    using in_out [of a] by simp
next
  assume o: "OutDegree g a = Inr (d, a1, g1)"
  from OutDegree_frame(1) [OF o] have a1: "a1 = a" .
  from OutDegree_stable [OF o] obtain g2 where "OutDegree g1 a = Inr (d, a, g2)" by blast
  then have "InDegree g1 (ReverseComplement a) = Inr (d, ReverseComplement a, g2)"
    by (simp add: InDegree_def)
  then show "\<exists>a2 g2. InDegree g1 (ReverseComplement a1) = Inr (d, a2, g2)"
    unfolding a1 by blast
next
  assume i: "InDegree g a = Inr (d', a3, g3)"
  note o = InDegree_Inr [OF i]
  from OutDegree_stable [OF o(1)] show "\<exists>a4 g4. OutDegree g3 (ReverseComplement a3) = Inr (d', a4, g4)"
    unfolding o(2) by blast
qed

lemma cache_kept_GetNext:
  assumes ok: "a_vertex a = Some (a_id a)"
    and n: "GetNextAdapters g a out = Inr (d, outs, a1, g1)"
    and b: "cached_out_degree g b = Inr (Some c)"
  shows "cached_out_degree g1 b = Inr (Some c)"
proof -
  from n obtain c0 :: "int option" where c0: "cached_out_degree g a = Inr c0"
    and same: "c0 \<noteq> None \<Longrightarrow> g1 = g"
    and w: "c0 = None \<Longrightarrow> write_cache g (a_id a) (a_strand a) d = Inr g1"
    by (rule GetNextAdapters_Inr) blast
  show ?thesis
  proof (cases c0)
    case (Some x)
    with same b show ?thesis by simp
  next
    case None
    have "\<not> (a_vertex b = Some (a_id a) \<and> a_strand b = a_strand a)"
    proof
      assume "a_vertex b = Some (a_id a) \<and> a_strand b = a_strand a"
      with ok have "adapter_info g b = adapter_info g a" by (intro adapter_info_cong) simp_all
      then have "cached_out_degree g b = cached_out_degree g a"
        by (simp add: cached_out_degree_def)
      with b c0 None show False by simp
    qed
    with cached_write_cache [OF w [OF None], of b] b show ?thesis by simp
  qed
qed

lemma cache_kept_OutDegree:
  assumes ok: "a_vertex a = Some (a_id a)"
    and o: "OutDegree g a = Inr (d, a1, g1)"
    and b: "cached_out_degree g b = Inr (Some c)"
  shows "cached_out_degree g1 b = Inr (Some c)"
  using o
proof (cases rule: OutDegree_Inr)
  case hit
  with b show ?thesis by simp
next
  case (miss outs)
  from b have "cached_out_degree (g\<lparr>count_cache_missed := count_cache_missed g + 1\<rparr>) b
      = Inr (Some c)"
    by simp
  from cache_kept_GetNext [OF ok miss(2) this] show ?thesis .
qed

lemma cache_kept:
  assumes ok: "a_vertex a = Some (a_id a)"
    and op: "graph_after op g a = Inr g2"
    and b: "cached_out_degree g b = Inr (Some c)"
  shows "cached_out_degree g2 b = Inr (Some c)"
proof (cases op)
  case (OpGetNext out)
  with op obtain d outs a1 where "GetNextAdapters g a out = Inr (d, outs, a1, g2)"
    by (auto simp: graph_after_def bind_err_eq_Inr)
  from cache_kept_GetNext [OF ok this b] show ?thesis .
next
  case (OpGetPrev out)
  with op obtain d outs a1 where "GetPrevAdapters g a out = Inr (d, outs, a1, g2)"
    by (auto simp: graph_after_def bind_err_eq_Inr)
  then obtain outs0 where
    n: "GetNextAdapters g (ReverseComplement a) out = Inr (d, outs0, ReverseComplement a, g2)"
    by (rule GetPrevAdapters_Inr)
  have "a_vertex (ReverseComplement a) = Some (a_id (ReverseComplement a))"
    using ok by simp
  from cache_kept_GetNext [OF this n b] show ?thesis .
next
  case OpOutDegree
  with op obtain d a1 where "OutDegree g a = Inr (d, a1, g2)"
    by (auto simp: graph_after_def bind_err_eq_Inr)
  from cache_kept_OutDegree [OF ok this b] show ?thesis .
next
  case OpInDegree
  with op obtain d a1 where "InDegree g a = Inr (d, a1, g2)"
    by (auto simp: graph_after_def bind_err_eq_Inr)
  note o = InDegree_Inr(1) [OF this]
  have "a_vertex (ReverseComplement a) = Some (a_id (ReverseComplement a))"
    using ok by simp
  from cache_kept_OutDegree [OF this o b] show ?thesis .
next
  case OpNextSimplePath
  with op obtain r a1 where "NextSimplePathAdapter g a = Inr (r, a1, g2)"
    by (auto simp: graph_after_def bind_err_eq_Inr)
  from NextSimplePathAdapter_Inr(2) [OF this] b show ?thesis by simp
next
  case OpPrevSimplePath
  with op obtain r a1 where "PrevSimplePathAdapter g a = Inr (r, a1, g2)"
    by (auto simp: graph_after_def bind_err_eq_Inr)
  from PrevSimplePathAdapter_Inr(2) [OF this] b show ?thesis by simp
qed

text \<open>
  Claim C8. When \<open>GetNextAdapters\<close> returns, either the cached out-degree of the adapter
  was unknown and the graph differs by the write of the computed fan-out to the cache of
  the adapter's vertex and strand, or it was known and the graph is unchanged. No
  operation of \<open>AdapterImpl\<close>, run on an adapter whose vertex reference is the vertex of
  its id, changes a cache entry that is known. After a miss, \<open>OutDegree\<close> has cached the
  value it returned, the fan-out at the adapter's end, and the next call serves the same
  value from the cache.
\<close>

theorem degree_cache_transparent:
  "(GetNextAdapters g a out = Inr (d, outs, a1, g1) \<longrightarrow>
      (cached_out_degree g a = Inr None
         \<and> write_cache g (a_id a) (a_strand a) d = Inr g1
         \<and> (\<exists>e. adapter_end g a = Inr e \<and> d = int (length (OutgoingEdges (sdbg g) e))))
      \<or> ((\<exists>c. cached_out_degree g a = Inr (Some c)) \<and> g1 = g))
   \<and> (a_vertex a = Some (a_id a) \<and> graph_after op g a = Inr g2
        \<and> cached_out_degree g b = Inr (Some c)
      \<longrightarrow> cached_out_degree g2 b = Inr (Some c))
   \<and> (a_vertex a = Some (a_id a) \<and> cached_out_degree g a = Inr None
        \<and> OutDegree g a = Inr (d', a3, g3)
      \<longrightarrow> cached_out_degree g3 a = Inr (Some d')
          \<and> OutDegree g3 a = Inr (d', a, g3\<lparr>count_cache_used := count_cache_used g3 + 1\<rparr>)
          \<and> (\<exists>e. adapter_end g a = Inr e \<and> d' = int (length (OutgoingEdges (sdbg g) e))))"
proof (intro conjI impI)
  assume n: "GetNextAdapters g a out = Inr (d, outs, a1, g1)"
  then obtain e and c0 :: "int option" where e: "adapter_end g a = Inr e"
    "d = int (length (OutgoingEdges (sdbg g) e))"
    and c0: "cached_out_degree g a = Inr c0"
    and same: "c0 \<noteq> None \<Longrightarrow> g1 = g"
    and w: "c0 = None \<Longrightarrow> write_cache g (a_id a) (a_strand a) d = Inr g1"
    by (rule GetNextAdapters_Inr) blast
  show "(cached_out_degree g a = Inr None
         \<and> write_cache g (a_id a) (a_strand a) d = Inr g1
         \<and> (\<exists>e. adapter_end g a = Inr e \<and> d = int (length (OutgoingEdges (sdbg g) e))))
      \<or> ((\<exists>c. cached_out_degree g a = Inr (Some c)) \<and> g1 = g)"
    using e c0 same w by (cases c0) auto
next
  assume "a_vertex a = Some (a_id a) \<and> graph_after op g a = Inr g2
        \<and> cached_out_degree g b = Inr (Some c)"
  then show "cached_out_degree g2 b = Inr (Some c)"
    using cache_kept [of a op g g2 b c] by simp
next
  assume h: "a_vertex a = Some (a_id a) \<and> cached_out_degree g a = Inr None
        \<and> OutDegree g a = Inr (d', a3, g3)"
  then have ok: "a_vertex a = Some (a_id a)" and none: "cached_out_degree g a = Inr None"
    and o: "OutDegree g a = Inr (d', a3, g3)"
    by simp_all
  from none o obtain e where e: "adapter_end g a = Inr e"
    "d' = int (length (OutgoingEdges (sdbg g) e))"
    and w: "write_cache (g\<lparr>count_cache_missed := count_cache_missed g + 1\<rparr>) (a_id a)
       (a_strand a) d' = Inr g3"
    by (rule OutDegree_miss)
  have c3: "cached_out_degree g3 a = Inr (Some d')"
    using cached_write_cache [OF w, of a] ok none by simp
  have "cached_out_degree g3 a = Inr (Some d')
          \<and> OutDegree g3 a = Inr (d', a, g3\<lparr>count_cache_used := count_cache_used g3 + 1\<rparr>)
          \<and> (\<exists>e. adapter_end g a = Inr e \<and> d' = int (length (OutgoingEdges (sdbg g) e)))"
    using c3 OutDegree_hit [OF c3] e by blast
  then show "cached_out_degree g3 a = Inr (Some d')"
    "OutDegree g3 a = Inr (d', a, g3\<lparr>count_cache_used := count_cache_used g3 + 1\<rparr>)"
    "\<exists>e. adapter_end g a = Inr e \<and> d' = int (length (OutgoingEdges (sdbg g) e))"
    by blast+
qed

lemma MakeVertexAdapterWithSdbgId_key:
  assumes "id_map g x = Some i" and "i < length (vertices g)"
  shows "MakeVertexAdapterWithSdbgId g x =
      Inr \<lparr>a_vertex = Some i,
           a_strand = (if si_begin (info_fwd (vertices g ! i)) = x then 0 else 1), a_id = i\<rparr>"
    and "adapter_begin g \<lparr>a_vertex = Some i,
           a_strand = (if si_begin (info_fwd (vertices g ! i)) = x then 0 else 1), a_id = i\<rparr>
      = Inr (if si_begin (info_fwd (vertices g ! i)) = x then x
             else si_begin (info_rev (vertices g ! i)))"
proof -
  let ?a = "\<lparr>a_vertex = Some i, a_strand = 0, a_id = i\<rparr>"
  have mk: "MakeVertexAdapter g i 0 = Inr ?a"
    using assms by (simp add: MakeVertexAdapter_def at_idx_def)
  have b0: "adapter_begin g ?a = Inr (si_begin (info_fwd (vertices g ! i)))"
    using assms by (simp add: adapter_begin_def adapter_info_def at_idx_def strand_info_def)
  have rc: "ReverseComplement ?a = \<lparr>a_vertex = Some i, a_strand = 1, a_id = i\<rparr>"
    by (simp add: ReverseComplement_def)
  have b1: "adapter_begin g \<lparr>a_vertex = Some i, a_strand = 1, a_id = i\<rparr>
      = Inr (si_begin (info_rev (vertices g ! i)))"
    using assms by (simp add: adapter_begin_def adapter_info_def at_idx_def strand_info_def)
  show "MakeVertexAdapterWithSdbgId g x =
      Inr \<lparr>a_vertex = Some i,
           a_strand = (if si_begin (info_fwd (vertices g ! i)) = x then 0 else 1), a_id = i\<rparr>"
    using assms mk b0 rc by (simp add: MakeVertexAdapterWithSdbgId_def)
  show "adapter_begin g \<lparr>a_vertex = Some i,
           a_strand = (if si_begin (info_fwd (vertices g ! i)) = x then 0 else 1), a_id = i\<rparr>
      = Inr (if si_begin (info_fwd (vertices g ! i)) = x then x
             else si_begin (info_rev (vertices g ! i)))"
    using b0 b1 by simp
qed

lemma MakeVertexAdapterWithSdbgId_begin_id:
  assumes "begin_id g x"
  shows "\<exists>a. MakeVertexAdapterWithSdbgId g x = Inr a \<and> adapter_begin g a = Inr x"
proof -
  from assms obtain i where i: "id_map g x = Some i" "i < length (vertices g)"
    and bg: "si_begin (info_fwd (vertices g ! i)) = x \<or> si_begin (info_rev (vertices g ! i)) = x"
    by (auto simp: begin_id_def split: option.splits)
  from MakeVertexAdapterWithSdbgId_key [OF i] bg show ?thesis by auto
qed

lemma make_adapters_begin_id:
  "\<forall>x\<in>set xs. begin_id g x \<Longrightarrow>
   \<exists>as. make_adapters g xs = Inr as \<and> map (adapter_begin g) as = map Inr xs"
proof (induction xs)
  case Nil
  then show ?case by simp
next
  case (Cons x xs)
  then obtain as where as: "make_adapters g xs = Inr as" "map (adapter_begin g) as = map Inr xs"
    by auto
  from Cons.prems MakeVertexAdapterWithSdbgId_begin_id [of g x] obtain a where
    "MakeVertexAdapterWithSdbgId g x = Inr a" "adapter_begin g a = Inr x"
    by auto
  with as show ?case by simp
qed

text \<open>
  Claim C7, as the code has it. \<open>MakeVertexAdapterWithSdbgId\<close> on a raw id that the map
  sends to a vertex of the graph builds the adapter of that vertex with strand 0 if the
  vertex begins with the id forwards and strand 1 otherwise; the adapter begins with
  the raw id exactly when the vertex begins with it in one of the two orientations.
  For such ids the adapters that \<open>GetNextAdapters\<close> writes to its buffer and the adapter
  that \<open>NextSimplePathAdapter\<close> returns begin with their raw ids. \<open>GetPrevAdapters\<close> and
  \<open>PrevSimplePathAdapter\<close> reverse-complement the adapters they have built: it is the
  reverse complement of each adapter they return that begins with the raw id.
\<close>

theorem built_adapter_begin:
  "(id_map g x = Some i \<and> i < length (vertices g) \<longrightarrow>
      (\<exists>b. MakeVertexAdapterWithSdbgId g x = Inr b \<and> a_vertex b = Some i \<and> a_id b = i
          \<and> a_strand b = (if si_begin (info_fwd (vertices g ! i)) = x then 0 else 1)
          \<and> adapter_begin g b = Inr (if si_begin (info_fwd (vertices g ! i)) = x then x
                                      else si_begin (info_rev (vertices g ! i)))
          \<and> (adapter_begin g b = Inr x) = begin_id g x))
   \<and> (adapter_end g a = Inr e \<and> (\<forall>x\<in>set (OutgoingEdges (sdbg g) e). begin_id g x)
        \<and> GetNextAdapters g a True = Inr (d, outs, a1, g1)
      \<longrightarrow> (\<exists>as. outs = Some as
             \<and> map (adapter_begin g1) as = map Inr (OutgoingEdges (sdbg g) e)))
   \<and> (adapter_end g (ReverseComplement a) = Inr e'
        \<and> (\<forall>x\<in>set (OutgoingEdges (sdbg g) e'). begin_id g x)
        \<and> GetPrevAdapters g a True = Inr (d', outs', a2, g2)
      \<longrightarrow> (\<exists>as. outs' = Some as
             \<and> map (\<lambda>b. adapter_begin g2 (ReverseComplement b)) as
                 = map Inr (OutgoingEdges (sdbg g) e')))
   \<and> (adapter_end g a = Inr e \<and> NextSimplePathEdge (sdbg g) e \<noteq> kNullID (sdbg g)
        \<and> begin_id g (NextSimplePathEdge (sdbg g) e)
      \<longrightarrow> (\<exists>ret. NextSimplePathAdapter g a = Inr (ret, a, g)
             \<and> adapter_begin g ret = Inr (NextSimplePathEdge (sdbg g) e)))
   \<and> (adapter_end g (ReverseComplement a) = Inr e'
        \<and> NextSimplePathEdge (sdbg g) e' \<noteq> kNullID (sdbg g)
        \<and> begin_id g (NextSimplePathEdge (sdbg g) e')
      \<longrightarrow> (\<exists>ret. PrevSimplePathAdapter g a = Inr (ret, a, g)
             \<and> adapter_begin g (ReverseComplement ret)
                 = Inr (NextSimplePathEdge (sdbg g) e')))"
proof -
  have nxt: "\<exists>as. outs = Some as \<and> map (adapter_begin g1) as = map Inr (OutgoingEdges (sdbg g) e)"
    if e: "adapter_end g a = Inr e" and reg: "\<forall>x\<in>set (OutgoingEdges (sdbg g) e). begin_id g x"
      and n: "GetNextAdapters g a True = Inr (d, outs, a1, g1)"
    for a e d outs a1 g1
  proof -
    from n obtain e0 as where "adapter_end g a = Inr e0"
      "make_adapters g (OutgoingEdges (sdbg g) e0) = Inr as" "outs = Some as"
      by (rule GetNextAdapters_Inr) blast
    with e have as: "make_adapters g (OutgoingEdges (sdbg g) e) = Inr as" "outs = Some as"
      by simp_all
    from make_adapters_begin_id [OF reg] as(1)
    have "map (adapter_begin g) as = map Inr (OutgoingEdges (sdbg g) e)" by auto
    moreover have "map (adapter_begin g1) as = map (adapter_begin g) as"
      using GetNextAdapters_frame(2) [OF n] by simp
    ultimately show ?thesis using as(2) by simp
  qed
  have smp: "\<exists>ret. NextSimplePathAdapter g a = Inr (ret, a, g)
             \<and> adapter_begin g ret = Inr (NextSimplePathEdge (sdbg g) e)"
    if e: "adapter_end g a = Inr e" and nn: "NextSimplePathEdge (sdbg g) e \<noteq> kNullID (sdbg g)"
      and reg: "begin_id g (NextSimplePathEdge (sdbg g) e)"
    for a e
  proof -
    from MakeVertexAdapterWithSdbgId_begin_id [OF reg] obtain ret where
      "MakeVertexAdapterWithSdbgId g (NextSimplePathEdge (sdbg g) e) = Inr ret"
      "adapter_begin g ret = Inr (NextSimplePathEdge (sdbg g) e)"
      by blast
    with e nn show ?thesis by (simp add: NextSimplePathAdapter_def Let_def)
  qed
  have c1: "id_map g x = Some i \<and> i < length (vertices g) \<longrightarrow>
      (\<exists>b. MakeVertexAdapterWithSdbgId g x = Inr b \<and> a_vertex b = Some i \<and> a_id b = i
          \<and> a_strand b = (if si_begin (info_fwd (vertices g ! i)) = x then 0 else 1)
          \<and> adapter_begin g b = Inr (if si_begin (info_fwd (vertices g ! i)) = x then x
                                      else si_begin (info_rev (vertices g ! i)))
          \<and> (adapter_begin g b = Inr x) = begin_id g x)"
  proof
    assume "id_map g x = Some i \<and> i < length (vertices g)"
    then have i: "id_map g x = Some i" "i < length (vertices g)" by simp_all
    let ?b = "\<lparr>a_vertex = Some i,
           a_strand = (if si_begin (info_fwd (vertices g ! i)) = x then 0 else 1), a_id = i\<rparr>"
    note k = MakeVertexAdapterWithSdbgId_key [OF i]
    have "(adapter_begin g ?b = Inr x) = begin_id g x"
      unfolding k(2) using i by (auto simp: begin_id_def)
    with k show "\<exists>b. MakeVertexAdapterWithSdbgId g x = Inr b \<and> a_vertex b = Some i \<and> a_id b = i
          \<and> a_strand b = (if si_begin (info_fwd (vertices g ! i)) = x then 0 else 1)
          \<and> adapter_begin g b = Inr (if si_begin (info_fwd (vertices g ! i)) = x then x
                                      else si_begin (info_rev (vertices g ! i)))
          \<and> (adapter_begin g b = Inr x) = begin_id g x"
      by (intro exI [of _ ?b]) simp
  qed
  have c2: "adapter_end g a = Inr e \<and> (\<forall>x\<in>set (OutgoingEdges (sdbg g) e). begin_id g x)
        \<and> GetNextAdapters g a True = Inr (d, outs, a1, g1)
      \<longrightarrow> (\<exists>as. outs = Some as
             \<and> map (adapter_begin g1) as = map Inr (OutgoingEdges (sdbg g) e))"
    using nxt by blast
  have c3: "adapter_end g (ReverseComplement a) = Inr e'
        \<and> (\<forall>x\<in>set (OutgoingEdges (sdbg g) e'). begin_id g x)
        \<and> GetPrevAdapters g a True = Inr (d', outs', a2, g2)
      \<longrightarrow> (\<exists>as. outs' = Some as
             \<and> map (\<lambda>b. adapter_begin g2 (ReverseComplement b)) as
                 = map Inr (OutgoingEdges (sdbg g) e'))"
  proof
    assume h: "adapter_end g (ReverseComplement a) = Inr e'
        \<and> (\<forall>x\<in>set (OutgoingEdges (sdbg g) e'). begin_id g x)
        \<and> GetPrevAdapters g a True = Inr (d', outs', a2, g2)"
    then obtain outs0 where
      n: "GetNextAdapters g (ReverseComplement a) True
            = Inr (d', outs0, ReverseComplement a, g2)"
      and o: "outs' = map_option (map ReverseComplement) outs0"
      by (auto elim: GetPrevAdapters_Inr)
    from nxt [OF _ _ n] h obtain as0 where
      as0: "outs0 = Some as0" "map (adapter_begin g2) as0 = map Inr (OutgoingEdges (sdbg g) e')"
      by blast
    have "map (\<lambda>b. adapter_begin g2 (ReverseComplement b)) (map ReverseComplement as0)
        = map (adapter_begin g2) as0"
      by simp
    with as0 o show "\<exists>as. outs' = Some as
             \<and> map (\<lambda>b. adapter_begin g2 (ReverseComplement b)) as
                 = map Inr (OutgoingEdges (sdbg g) e')"
      by (intro exI [of _ "map ReverseComplement as0"]) simp
  qed
  have c4: "adapter_end g a = Inr e \<and> NextSimplePathEdge (sdbg g) e \<noteq> kNullID (sdbg g)
        \<and> begin_id g (NextSimplePathEdge (sdbg g) e)
      \<longrightarrow> (\<exists>ret. NextSimplePathAdapter g a = Inr (ret, a, g)
             \<and> adapter_begin g ret = Inr (NextSimplePathEdge (sdbg g) e))"
    using smp by blast
  have c5: "adapter_end g (ReverseComplement a) = Inr e'
        \<and> NextSimplePathEdge (sdbg g) e' \<noteq> kNullID (sdbg g)
        \<and> begin_id g (NextSimplePathEdge (sdbg g) e')
      \<longrightarrow> (\<exists>ret. PrevSimplePathAdapter g a = Inr (ret, a, g)
             \<and> adapter_begin g (ReverseComplement ret)
                 = Inr (NextSimplePathEdge (sdbg g) e'))"
  proof
    assume "adapter_end g (ReverseComplement a) = Inr e'
        \<and> NextSimplePathEdge (sdbg g) e' \<noteq> kNullID (sdbg g)
        \<and> begin_id g (NextSimplePathEdge (sdbg g) e')"
    with smp [of "ReverseComplement a" e'] obtain ret where
      "NextSimplePathAdapter g (ReverseComplement a) = Inr (ret, ReverseComplement a, g)"
      "adapter_begin g ret = Inr (NextSimplePathEdge (sdbg g) e')"
      by blast
    then show "\<exists>ret. PrevSimplePathAdapter g a = Inr (ret, a, g)
             \<and> adapter_begin g (ReverseComplement ret)
                 = Inr (NextSimplePathEdge (sdbg g) e')"
      by (intro exI [of _ "ReverseComplement ret"]) (simp add: PrevSimplePathAdapter_def)
  qed
  from c1 c2 c3 c4 c5 show ?thesis by (intro conjI)
qed

lemmas ex_graph_defs =
  ex_graph_def ex_sdbg_def ex_vertex_def ex_adapter_def
  GetNextAdapters_def GetPrevAdapters_def OutDegree_def InDegree_def
  NextSimplePathAdapter_def PrevSimplePathAdapter_def MakeVertexAdapterWithSdbgId_def
  MakeVertexAdapter_def write_cache_def set_cached_outdegree_def strand_info_def
  adapter_info_def adapter_begin_def adapter_end_def cached_out_degree_def
  ReverseComplement_def at_idx_def Let_def

lemma ex_graph_runs:
  "\<exists>d outs a1 g1. GetPrevAdapters ex_graph ex_adapter True = Inr (d, outs, a1, g1)"
  "\<exists>d a1 g1. InDegree ex_graph ex_adapter = Inr (d, a1, g1)"
  "\<exists>r a1 g1. PrevSimplePathAdapter ex_graph ex_adapter = Inr (r, a1, g1)"
  "\<exists>d a1 g1. OutDegree ex_graph ex_adapter = Inr (d, a1, g1)"
  "\<exists>d outs a1 g1. GetNextAdapters ex_graph ex_adapter True = Inr (d, outs, a1, g1)"
  by (simp_all add: ex_graph_defs)

lemma ex_graph_facts:
  "adapter_begin ex_graph ex_adapter = Inr 20" "adapter_end ex_graph ex_adapter = Inr 21"
  "adapter_end ex_graph (ReverseComplement ex_adapter) = Inr 23"
  "cached_out_degree ex_graph ex_adapter = Inr None"
  "a_vertex ex_adapter = Some (a_id ex_adapter)"
  "OutgoingEdges (sdbg ex_graph) 21 = [30]" "OutgoingEdges (sdbg ex_graph) 23 = [12]"
  "NextSimplePathEdge (sdbg ex_graph) 21 = 30" "NextSimplePathEdge (sdbg ex_graph) 23 = 12"
  "kNullID (sdbg ex_graph) = - 1"
  "begin_id ex_graph 30" "begin_id ex_graph 12"
  by (simp_all add: ex_graph_defs begin_id_def)

theorem reverse_operations_restore_adapter_witness:
  "(\<exists>d outs g1. GetPrevAdapters ex_graph ex_adapter True = Inr (d, outs, ex_adapter, g1)
       \<and> adapter_begin g1 ex_adapter = Inr 20 \<and> adapter_end g1 ex_adapter = Inr 21)
   \<and> (\<exists>d g2. InDegree ex_graph ex_adapter = Inr (d, ex_adapter, g2)
       \<and> adapter_begin g2 ex_adapter = Inr 20 \<and> adapter_end g2 ex_adapter = Inr 21)
   \<and> (\<exists>ret g3. PrevSimplePathAdapter ex_graph ex_adapter = Inr (ret, ex_adapter, g3)
       \<and> adapter_begin g3 ex_adapter = Inr 20 \<and> adapter_end g3 ex_adapter = Inr 21)"
proof -
  from ex_graph_runs obtain d outs a1 g1 d' a2 g2 ret a3 g3 where
    r: "GetPrevAdapters ex_graph ex_adapter True = Inr (d, outs, a1, g1)"
      "InDegree ex_graph ex_adapter = Inr (d', a2, g2)"
      "PrevSimplePathAdapter ex_graph ex_adapter = Inr (ret, a3, g3)"
    by blast
  from reverse_operations_restore_adapter
    [of ex_graph ex_adapter True d outs a1 g1 d' a2 g2 ret a3 g3] r ex_graph_facts(1,2)
  show ?thesis by auto
qed

theorem degree_symmetry_witness:
  "\<exists>d g1 a2 g2 a4 g4. OutDegree ex_graph ex_adapter = Inr (d, ex_adapter, g1)
     \<and> d = 1
     \<and> InDegree g1 (ReverseComplement ex_adapter) = Inr (d, a2, g2)
     \<and> InDegree ex_graph (ReverseComplement ex_adapter) = Inr (d, ReverseComplement ex_adapter, g1)
     \<and> OutDegree g1 (ReverseComplement (ReverseComplement ex_adapter)) = Inr (d, a4, g4)"
proof -
  have o: "\<exists>g1. OutDegree ex_graph ex_adapter = Inr (1, ex_adapter, g1)
      \<and> InDegree ex_graph (ReverseComplement ex_adapter)
          = Inr (1, ReverseComplement ex_adapter, g1)"
    by (simp add: ex_graph_defs xor.assoc)
  then obtain g1 where o1: "OutDegree ex_graph ex_adapter = Inr (1, ex_adapter, g1)"
    and i1: "InDegree ex_graph (ReverseComplement ex_adapter)
          = Inr (1, ReverseComplement ex_adapter, g1)"
    by blast
  note th = degree_symmetry [of ex_graph ex_adapter 1 ex_adapter g1 1
      "ReverseComplement ex_adapter" g1]
  from th [THEN conjunct2, THEN conjunct2, THEN conjunct1, THEN mp, OF o1]
  obtain a2 g2 where a: "InDegree g1 (ReverseComplement ex_adapter) = Inr (1, a2, g2)"
    by blast
  note th2 = degree_symmetry [of ex_graph "ReverseComplement ex_adapter" 1 ex_adapter g1 1
      "ReverseComplement ex_adapter" g1]
  from th2 [THEN conjunct2, THEN conjunct2, THEN conjunct2, THEN mp, OF i1]
  obtain a4 g4 where
    b: "OutDegree g1 (ReverseComplement (ReverseComplement ex_adapter)) = Inr (1, a4, g4)"
    by blast
  from o1 i1 a b show ?thesis by blast
qed

theorem degree_cache_transparent_witness:
  "a_vertex ex_adapter = Some (a_id ex_adapter)
   \<and> cached_out_degree ex_graph ex_adapter = Inr None
   \<and> (\<exists>g1 g2 d outs a1 g3.
        OutDegree ex_graph ex_adapter = Inr (1, ex_adapter, g1)
        \<and> cached_out_degree g1 ex_adapter = Inr (Some 1)
        \<and> OutDegree g1 ex_adapter
            = Inr (1, ex_adapter, g1\<lparr>count_cache_used := count_cache_used g1 + 1\<rparr>)
        \<and> graph_after (OpGetPrev True) g1 ex_adapter = Inr g2
        \<and> cached_out_degree g2 ex_adapter = Inr (Some 1)
        \<and> GetNextAdapters g2 ex_adapter True = Inr (d, outs, a1, g3) \<and> g3 = g2)"
proof -
  have "\<exists>g1. OutDegree ex_graph ex_adapter = Inr (1, ex_adapter, g1)"
    by (simp add: ex_graph_defs)
  then obtain g1 where o1: "OutDegree ex_graph ex_adapter = Inr (1, ex_adapter, g1)"
    by blast
  have h3: "a_vertex ex_adapter = Some (a_id ex_adapter)
      \<and> cached_out_degree ex_graph ex_adapter = Inr None
      \<and> OutDegree ex_graph ex_adapter = Inr (1, ex_adapter, g1)"
    using o1 ex_graph_facts by simp
  note t1 = degree_cache_transparent [of ex_graph ex_adapter True 1 None ex_adapter g1
      "OpGetPrev True" g1 ex_adapter 1 1 ex_adapter g1]
  from t1 [THEN conjunct2, THEN conjunct2, THEN mp, OF h3]
  have c1: "cached_out_degree g1 ex_adapter = Inr (Some 1)"
    and hit: "OutDegree g1 ex_adapter
            = Inr (1, ex_adapter, g1\<lparr>count_cache_used := count_cache_used g1 + 1\<rparr>)"
    by simp_all
  have g1: "g1 = ex_graph\<lparr>count_cache_missed := 1,
      vertices := [ex_vertex 10,
        (ex_vertex 20)\<lparr>info_fwd := (info_fwd (ex_vertex 20))\<lparr>si_cached_out_degree := Some 1\<rparr>\<rparr>,
        ex_vertex 30]\<rparr>"
    using o1 by (simp add: ex_graph_defs)
  have "\<exists>g2. graph_after (OpGetPrev True) g1 ex_adapter = Inr g2"
    unfolding g1 by (simp add: graph_after_def ex_graph_defs)
  then obtain g2 where p: "graph_after (OpGetPrev True) g1 ex_adapter = Inr g2" by blast
  have h2: "a_vertex ex_adapter = Some (a_id ex_adapter)
      \<and> graph_after (OpGetPrev True) g1 ex_adapter = Inr g2
      \<and> cached_out_degree g1 ex_adapter = Inr (Some 1)"
    using p c1 ex_graph_facts by simp
  note t2 = degree_cache_transparent [of g1 ex_adapter True 1 None ex_adapter g1
      "OpGetPrev True" g2 ex_adapter 1 1 ex_adapter g1]
  from t2 [THEN conjunct2, THEN conjunct1, THEN mp, OF h2]
  have c2: "cached_out_degree g2 ex_adapter = Inr (Some 1)" .
  have g2: "\<exists>d outs a1 g3. GetNextAdapters g2 ex_adapter True = Inr (d, outs, a1, g3)"
    using p unfolding g1 by (auto simp: graph_after_def ex_graph_defs)
  then obtain d outs a1 g3 where n: "GetNextAdapters g2 ex_adapter True = Inr (d, outs, a1, g3)"
    by blast
  note t3 = degree_cache_transparent [of g2 ex_adapter True d outs a1 g3
      "OpGetPrev True" g2 ex_adapter 1 1 ex_adapter g1]
  from t3 [THEN conjunct1, THEN mp, OF n] c2 have "g3 = g2" by simp
  with o1 c1 hit p c2 n ex_graph_facts show ?thesis by blast
qed

theorem built_adapter_begin_witness:
  "begin_id ex_graph 30 \<and> begin_id ex_graph 12 \<and> id_map ex_graph 12 = Some 0
   \<and> (\<exists>b. MakeVertexAdapterWithSdbgId ex_graph 12 = Inr b \<and> adapter_begin ex_graph b = Inr 12
          \<and> a_strand b = 1)
   \<and> (\<exists>d as a1 g1. GetNextAdapters ex_graph ex_adapter True = Inr (d, Some as, a1, g1)
          \<and> map (adapter_begin g1) as = [Inr 30])
   \<and> (\<exists>d as a1 g1. GetPrevAdapters ex_graph ex_adapter True = Inr (d, Some as, a1, g1)
          \<and> map (\<lambda>b. adapter_begin g1 (ReverseComplement b)) as = [Inr 12])
   \<and> (\<exists>ret. NextSimplePathAdapter ex_graph ex_adapter = Inr (ret, ex_adapter, ex_graph)
          \<and> adapter_begin ex_graph ret = Inr 30)
   \<and> (\<exists>ret. PrevSimplePathAdapter ex_graph ex_adapter = Inr (ret, ex_adapter, ex_graph)
          \<and> adapter_begin ex_graph (ReverseComplement ret) = Inr 12)"
proof -
  from ex_graph_runs obtain d outs a1 g1 d' outs' a2 g2 where
    r: "GetNextAdapters ex_graph ex_adapter True = Inr (d, outs, a1, g1)"
      "GetPrevAdapters ex_graph ex_adapter True = Inr (d', outs', a2, g2)"
    by blast
  note th = built_adapter_begin [of ex_graph 12 0 ex_adapter 21 d outs a1 g1 23 d' outs' a2 g2]
  have k: "id_map ex_graph 12 = Some 0" "0 < length (vertices ex_graph)"
    "si_begin (info_fwd (vertices ex_graph ! 0)) \<noteq> 12"
    by (simp_all add: ex_graph_def ex_vertex_def)
  from th [THEN conjunct1] k
  have c1: "\<exists>b. MakeVertexAdapterWithSdbgId ex_graph 12 = Inr b
      \<and> adapter_begin ex_graph b = Inr 12 \<and> a_strand b = 1"
    using ex_graph_facts(12) by auto
  from th [THEN conjunct2, THEN conjunct1] r ex_graph_facts
  have c2: "\<exists>d as a1 g1. GetNextAdapters ex_graph ex_adapter True = Inr (d, Some as, a1, g1)
          \<and> map (adapter_begin g1) as = [Inr 30]"
    by auto
  from th [THEN conjunct2, THEN conjunct2, THEN conjunct1] r ex_graph_facts
  have c3: "\<exists>d as a1 g1. GetPrevAdapters ex_graph ex_adapter True = Inr (d, Some as, a1, g1)
          \<and> map (\<lambda>b. adapter_begin g1 (ReverseComplement b)) as = [Inr 12]"
    by auto
  from th [THEN conjunct2, THEN conjunct2, THEN conjunct2, THEN conjunct1] ex_graph_facts
  have c4: "\<exists>ret. NextSimplePathAdapter ex_graph ex_adapter = Inr (ret, ex_adapter, ex_graph)
          \<and> adapter_begin ex_graph ret = Inr 30"
    by simp
  from th [THEN conjunct2, THEN conjunct2, THEN conjunct2, THEN conjunct2] ex_graph_facts
  have c5: "\<exists>ret. PrevSimplePathAdapter ex_graph ex_adapter = Inr (ret, ex_adapter, ex_graph)
          \<and> adapter_begin ex_graph (ReverseComplement ret) = Inr 12"
    by simp
  from ex_graph_facts(11,12) k(1) c1 c2 c3 c4 c5 show ?thesis by (intro conjI)
qed

text \<open>
  The adapter that \<open>GetPrevAdapters\<close> and \<open>PrevSimplePathAdapter\<close> build from the raw id 12
  for \<open>ex_adapter\<close> is returned reverse-complemented and begins with 10. With the end id
  11 of vertex 0 as a key of the map, the adapter built from 11 begins with 12.
\<close>

theorem built_adapter_begins_elsewhere:
  "adapter_end ex_graph (ReverseComplement ex_adapter) = Inr 23
   \<and> OutgoingEdges (sdbg ex_graph) 23 = [12] \<and> NextSimplePathEdge (sdbg ex_graph) 23 = 12
   \<and> id_map ex_graph 12 = Some 0
   \<and> GetPrevAdapters ex_graph ex_adapter True
       = Inr (1, Some [\<lparr>a_vertex = Some 0, a_strand = 0, a_id = 0\<rparr>], ex_adapter, ex_graph_prev)
   \<and> adapter_begin ex_graph_prev \<lparr>a_vertex = Some 0, a_strand = 0, a_id = 0\<rparr> = Inr 10
   \<and> PrevSimplePathAdapter ex_graph ex_adapter
       = Inr (\<lparr>a_vertex = Some 0, a_strand = 0, a_id = 0\<rparr>, ex_adapter, ex_graph)
   \<and> adapter_begin ex_graph \<lparr>a_vertex = Some 0, a_strand = 0, a_id = 0\<rparr> = Inr 10
   \<and> id_map ex_key_graph 11 = Some 0
   \<and> MakeVertexAdapterWithSdbgId ex_key_graph 11
       = Inr \<lparr>a_vertex = Some 0, a_strand = 1, a_id = 0\<rparr>
   \<and> adapter_begin ex_key_graph \<lparr>a_vertex = Some 0, a_strand = 1, a_id = 0\<rparr> = Inr 12"
  by (simp add: ex_graph_defs ex_graph_prev_def ex_key_graph_def)

end
